theory Spec2Isabelle
  imports Main "HOL-Library.AList"
begin

section \<open>Values\<close>

text \<open>
  Values handed to the store by a caller are finite trees (\<open>jv\<close>). Numbers are
  integers; floating point, functions as stored values and cyclic inputs are outside the
  model. An object is an association list in insertion order.
\<close>

datatype jv = JUndefined | JNull | JBool bool | JNum int | JStr string
  | JArr "jv list" | JObj "(string \<times> jv) list"

text \<open>
  Inside the store, objects and arrays live at addresses, because the code mutates them
  in place and keeps references to them (the \<open>state\<close> argument of a notification).
  \<open>VBuiltin\<close> stands for a function of the language runtime found on a prototype.
\<close>

type_synonym addr = nat

datatype jsval = VUndefined | VNull | VBool bool | VNum int | VStr string
  | VRef addr | VBuiltin string

datatype cell = ObjCell "(string \<times> jsval) list"
  | ArrCell "jsval list" "(string \<times> jsval) list"

record heap =
  cells :: "addr \<Rightarrow> cell option"
  nxt :: addr

datatype kind = KObject | KArray | KString | KNumber | KBoolean | KFunction

text \<open>
  The language runtime is not repository code. What the store's code can see of it is
  taken as a parameter: the members a value inherits from its prototype chain, and the
  conversion applied when an array's \<open>length\<close> is assigned (\<open>None\<close>: the assignment
  throws).
\<close>

record realm =
  members :: "kind \<Rightarrow> string \<Rightarrow> jsval option"
  toLength :: "(addr \<Rightarrow> cell option) \<Rightarrow> jsval \<Rightarrow> nat option"

datatype exn = TypeError | ReferenceError | RangeError | OtherError

section \<open>Strings\<close>

definition is_space :: "char \<Rightarrow> bool" where
  "is_space c = (c \<in> set [CHR 0x09, CHR 0x0A, CHR 0x0B, CHR 0x0C, CHR 0x0D, CHR 0x20])"

text \<open>\<open>s.trim() === ''\<close>, for the ASCII white space characters.\<close>

definition trim_empty :: "string \<Rightarrow> bool" where
  "trim_empty s = list_all is_space s"

text \<open>\<open>s.split('.')\<close>: never empty; an empty string gives one empty segment.\<close>

fun split_dots :: "string \<Rightarrow> string list" where
  "split_dots [] = [[]]"
| "split_dots (c # cs) =
     (if c = CHR ''.'' then [] # split_dots cs
      else (case split_dots cs of [] \<Rightarrow> [[c]] | s # ss \<Rightarrow> (c # s) # ss))"

definition is_digit :: "char \<Rightarrow> bool" where
  "is_digit c = (c \<in> set ''0123456789'')"

definition digit_val :: "char \<Rightarrow> nat" where
  "digit_val c = (of_char c :: nat) - 48"

text \<open>A canonical array index: decimal, no leading zero, below \<open>2^32 - 1\<close>.\<close>

definition index_of_key :: "string \<Rightarrow> nat option" where
  "index_of_key key =
     (if key \<noteq> [] \<and> list_all is_digit key \<and> (key = ''0'' \<or> hd key \<noteq> CHR ''0'') then
        (let n = foldl (\<lambda>n c. 10 * n + digit_val c) 0 key
         in if n < 4294967295 then Some n else None)
      else None)"

fun show_nat :: "nat \<Rightarrow> string" where
  "show_nat n = (if n < 10 then [''0123456789'' ! n]
     else show_nat (n div 10) @ [''0123456789'' ! (n mod 10)])"

declare show_nat.simps [simp del]

section \<open>StateSecurity\<close>

text \<open>
  \<open>sanitizeState\<close>: a primitive is returned as it is, an array is mapped, an object is
  rebuilt entry by entry, skipping the three reserved keys and blank keys. There is no
  depth argument and no depth test in this function.
\<close>

fun sanitizeState :: "jv \<Rightarrow> jv"
  and sanitize_entries :: "(string \<times> jv) list \<Rightarrow> (string \<times> jv) list \<Rightarrow> (string \<times> jv) list"
  where
  "sanitizeState (JArr xs) = JArr (map sanitizeState xs)"
| "sanitizeState (JObj ps) = JObj (sanitize_entries [] ps)"
| "sanitizeState v = v"
| "sanitize_entries sanitized [] = sanitized"
| "sanitize_entries sanitized ((key, v) # ps) =
     (if key = ''__proto__'' \<or> key = ''constructor'' \<or> key = ''prototype''
        then sanitize_entries sanitized ps
      else if trim_empty key then sanitize_entries sanitized ps
      else sanitize_entries (AList.update key (sanitizeState v) sanitized) ps)"

text \<open>\<open>!path\<close> and \<open>typeof path === 'string'\<close> on an argument.\<close>

fun falsy_arg :: "jv \<Rightarrow> bool" where
  "falsy_arg JUndefined = True"
| "falsy_arg JNull = True"
| "falsy_arg (JBool b) = (\<not> b)"
| "falsy_arg (JNum n) = (n = 0)"
| "falsy_arg (JStr s) = (s = [])"
| "falsy_arg _ = False"

fun validatePath :: "nat \<Rightarrow> jv \<Rightarrow> bool" where
  "validatePath maxDepth (JStr path) =
     (if trim_empty path then False
      else if length (split_dots path) > maxDepth then False
      else True)"
| "validatePath maxDepth _ = False"

definition validateKey :: "string \<Rightarrow> bool" where
  "validateKey key = (\<not> (key = ''__proto__'' \<or> key = ''constructor'' \<or> key = ''prototype''))"

section \<open>Objects in the heap\<close>

definition inherited :: "realm \<Rightarrow> kind \<Rightarrow> string \<Rightarrow> jsval" where
  "inherited R k key = (case members R k key of Some v \<Rightarrow> v | None \<Rightarrow> VUndefined)"

text \<open>\<open>obj[key]\<close> for a value that is neither \<open>null\<close> nor \<open>undefined\<close>.\<close>

definition getProp :: "realm \<Rightarrow> (addr \<Rightarrow> cell option) \<Rightarrow> jsval \<Rightarrow> string \<Rightarrow> jsval" where
  "getProp R cs obj key =
     (case obj of
        VRef a \<Rightarrow>
          (case cs a of
             Some (ObjCell ps) \<Rightarrow>
               (case map_of ps key of Some v \<Rightarrow> v | None \<Rightarrow> inherited R KObject key)
           | Some (ArrCell xs ps) \<Rightarrow>
               (if key = ''length'' then VNum (int (length xs))
                else (case index_of_key key of
                        Some i \<Rightarrow> (if i < length xs then xs ! i else inherited R KArray key)
                      | None \<Rightarrow>
                          (case map_of ps key of Some v \<Rightarrow> v | None \<Rightarrow> inherited R KArray key)))
           | None \<Rightarrow> VUndefined)
      | VStr s \<Rightarrow>
          (if key = ''length'' then VNum (int (length s))
           else (case index_of_key key of
                   Some i \<Rightarrow> (if i < length s then VStr [s ! i] else inherited R KString key)
                 | None \<Rightarrow> inherited R KString key))
      | VNum n \<Rightarrow> inherited R KNumber key
      | VBool b \<Rightarrow> inherited R KBoolean key
      | VBuiltin f \<Rightarrow> inherited R KFunction key
      | _ \<Rightarrow> VUndefined)"

fun truthy :: "jsval \<Rightarrow> bool" where
  "truthy VUndefined = False"
| "truthy VNull = False"
| "truthy (VBool b) = b"
| "truthy (VNum n) = (n \<noteq> 0)"
| "truthy (VStr s) = (s \<noteq> [])"
| "truthy (VRef a) = True"
| "truthy (VBuiltin f) = True"

text \<open>
  \<open>!v || typeof v !== 'object'\<close> is false exactly when \<open>v\<close> refers to an object or an
  array (\<open>null\<close> is falsy): \<open>as_object v\<close> is then the address.
\<close>

fun as_object :: "jsval \<Rightarrow> addr option" where
  "as_object (VRef a) = Some a"
| "as_object v = None"

definition resize :: "nat \<Rightarrow> jsval list \<Rightarrow> jsval list" where
  "resize n xs = take n xs @ replicate (n - length xs) VUndefined"

text \<open>
  \<open>obj[key] = v\<close> on the object at address \<open>a\<close>. On an array an index key writes the
  element (extending the array), \<open>length\<close> resizes it or throws, any other key is a named
  property.
\<close>

definition setProp :: "realm \<Rightarrow> (addr \<Rightarrow> cell option) \<Rightarrow> addr \<Rightarrow> string \<Rightarrow> jsval
    \<Rightarrow> exn + (addr \<Rightarrow> cell option)" where
  "setProp R cs a key v =
     (case cs a of
        Some (ObjCell ps) \<Rightarrow> Inr (cs(a \<mapsto> ObjCell (AList.update key v ps)))
      | Some (ArrCell xs ps) \<Rightarrow>
          (if key = ''length'' then
             (case toLength R cs v of
                Some n \<Rightarrow> Inr (cs(a \<mapsto> ArrCell (resize n xs) ps))
              | None \<Rightarrow> Inl RangeError)
           else (case index_of_key key of
                   Some i \<Rightarrow> Inr (cs(a \<mapsto> ArrCell ((resize (max (Suc i) (length xs)) xs)[i := v]) ps))
                 | None \<Rightarrow> Inr (cs(a \<mapsto> ArrCell xs (AList.update key v ps)))))
      | None \<Rightarrow> Inl TypeError)"

text \<open>
  The sanitized copy is made of new objects: \<open>alloc\<close> stores a tree in fresh cells and
  returns the value that refers to it.
\<close>

fun alloc :: "heap \<Rightarrow> jv \<Rightarrow> heap \<times> jsval"
  and alloc_list :: "heap \<Rightarrow> jv list \<Rightarrow> heap \<times> jsval list"
  and alloc_props :: "heap \<Rightarrow> (string \<times> jv) list \<Rightarrow> heap \<times> (string \<times> jsval) list"
  where
  "alloc h JUndefined = (h, VUndefined)"
| "alloc h JNull = (h, VNull)"
| "alloc h (JBool b) = (h, VBool b)"
| "alloc h (JNum n) = (h, VNum n)"
| "alloc h (JStr s) = (h, VStr s)"
| "alloc h (JArr xs) =
     (case alloc_list h xs of (h1, vs) \<Rightarrow>
        (\<lparr>cells = (cells h1)(nxt h1 \<mapsto> ArrCell vs []), nxt = Suc (nxt h1)\<rparr>, VRef (nxt h1)))"
| "alloc h (JObj ps) =
     (case alloc_props h ps of (h1, qs) \<Rightarrow>
        (\<lparr>cells = (cells h1)(nxt h1 \<mapsto> ObjCell qs), nxt = Suc (nxt h1)\<rparr>, VRef (nxt h1)))"
| "alloc_list h [] = (h, [])"
| "alloc_list h (x # xs) =
     (case alloc h x of (h1, v) \<Rightarrow>
        (case alloc_list h1 xs of (h2, vs) \<Rightarrow> (h2, v # vs)))"
| "alloc_props h [] = (h, [])"
| "alloc_props h ((key, x) # ps) =
     (case alloc h x of (h1, v) \<Rightarrow>
        (case alloc_props h1 ps of (h2, qs) \<Rightarrow> (h2, (key, v) # qs)))"


section \<open>The engine state\<close>

text \<open>
  A subscriber callback is user code. It is given as a program over the engine's public
  operations: it can read (\<open>Get\<close>), write (\<open>Set\<close>), read a property of an object it
  holds (\<open>ReadProp\<close>), subscribe, call an unsubscribe handle, report a value to the
  outside (\<open>Log\<close>), return or throw an error object with a name.
\<close>

datatype handle = NoHandle | Handle string nat

datatype prog = Return jsval | Throw exn
  | Get jv "jsval \<Rightarrow> prog"
  | Set jv jv prog
  | ReadProp jsval string "jsval \<Rightarrow> prog"
  | Subscribe string "jsval \<Rightarrow> string \<Rightarrow> prog" "handle \<Rightarrow> prog"
  | Unsubscribe handle prog
  | Log jsval prog

text \<open>
  \<open>ComputedCb name computeFn\<close> is the dependency callback that \<open>computed\<close> registers,
  \<open>NoopCb\<close> the empty arrow function it subscribes on \<open>computed.<name>\<close>.
\<close>

datatype callback = UserCb "jsval \<Rightarrow> string \<Rightarrow> prog" | ComputedCb string prog | NoopCb

record subscriber =
  sid :: nat
  callback :: callback

text \<open>
  What an observer outside the engine sees: a callback of subscriber \<open>i\<close>, reached
  through the subscriber set of path \<open>scope\<close>, starts with its two arguments and
  finishes; a callback reports a value.
\<close>

datatype event = Call string nat jsval string | Ret string nat | Obs jsval

text \<open>
  \<open>subscribers\<close> is the Map from a path to a Set object, \<open>sets\<close> the content of each Set
  object in insertion order. \<open>timers\<close> is the queue of \<open>setTimeout(..., 0)\<close> tasks; a
  task keeps the \<open>state\<close> and \<open>pending\<close> its closure captured.
\<close>

record engine =
  realm :: realm
  maxDepth :: nat
  hp :: heap
  state :: addr
  subscribers :: "(string \<times> nat) list"
  sets :: "nat \<Rightarrow> subscriber list"
  nextSym :: nat
  maxSubscribers :: nat
  isUpdating :: bool
  pendingUpdates :: "string list"
  updateCount :: nat
  maxUpdatesPerCycle :: nat
  timers :: "(jsval \<times> string list) list"
  computedCache :: "(string \<times> jsval) list"
  computedDependencies :: "(string \<times> string list) list"
  trace :: "event list"

type_synonym notifier = "string \<Rightarrow> engine \<Rightarrow> engine option"

section \<open>ReactiveState: get and set\<close>

text \<open>The reducer of \<open>get\<close>.\<close>

definition get_step :: "realm \<Rightarrow> (addr \<Rightarrow> cell option) \<Rightarrow> jsval \<Rightarrow> string \<Rightarrow> jsval" where
  "get_step R cs obj key =
     (if \<not> validateKey key then VUndefined
      else if truthy obj \<and> getProp R cs obj key \<noteq> VUndefined then getProp R cs obj key
      else VUndefined)"

definition get :: "engine \<Rightarrow> jv \<Rightarrow> jsval" where
  "get e path =
     (if falsy_arg path then VRef (state e)
      else if \<not> validatePath (maxDepth e) path then VUndefined
      else (case path of
              JStr p \<Rightarrow> foldl (get_step (realm e) (cells (hp e))) (VRef (state e)) (split_dots p)
            | _ \<Rightarrow> VUndefined))"

text \<open>
  The reducer of \<open>setByPath\<close>, over the segments before the last. A reserved segment
  returns \<open>obj\<close>: the walk stays where it is and goes on with the next segment. After
  \<open>obj[key] = {}\<close> the reducer returns \<open>obj[key]\<close> as it reads then; should that not be
  an object (the \<open>length\<close> of an array), the next step writes a property of a primitive,
  which throws in module code.
\<close>

fun nav :: "realm \<Rightarrow> heap \<Rightarrow> addr \<Rightarrow> string list \<Rightarrow> heap \<times> (exn + addr)" where
  "nav R h obj [] = (h, Inr obj)"
| "nav R h obj (key # keys) =
     (if \<not> validateKey key then nav R h obj keys
      else (case as_object (getProp R (cells h) (VRef obj) key) of
              None \<Rightarrow>
                (case setProp R ((cells h)(nxt h \<mapsto> ObjCell [])) obj key (VRef (nxt h)) of
                   Inl x \<Rightarrow> (\<lparr>cells = (cells h)(nxt h \<mapsto> ObjCell []), nxt = Suc (nxt h)\<rparr>, Inl x)
                 | Inr cs \<Rightarrow>
                     (case as_object (getProp R cs (VRef obj) key) of
                        None \<Rightarrow> (\<lparr>cells = cs, nxt = Suc (nxt h)\<rparr>, Inl TypeError)
                      | Some b \<Rightarrow> nav R \<lparr>cells = cs, nxt = Suc (nxt h)\<rparr> b keys))
            | Some b \<Rightarrow> nav R h b keys))"

text \<open>
  \<open>setByPath\<close>. The result carries the error a property assignment threw, if any; the
  caller \<open>set\<close> catches it.
\<close>

definition setByPath :: "notifier \<Rightarrow> string \<Rightarrow> jv \<Rightarrow> engine \<Rightarrow> (engine \<times> exn option) option" where
  "setByPath N path v e =
     (if \<not> validatePath (maxDepth e) (JStr path) then Some (e, None)
      else if \<not> validateKey (last (split_dots path)) then Some (e, None)
      else
        (case nav (realm e) (hp e) (state e) (butlast (split_dots path)) of
           (h1, Inl x) \<Rightarrow> Some (e\<lparr>hp := h1\<rparr>, Some x)
         | (h1, Inr parent) \<Rightarrow>
             (case alloc h1 (sanitizeState v) of
                (h2, sanitizedValue) \<Rightarrow>
                  (case setProp (realm e) (cells h2) parent (last (split_dots path)) sanitizedValue of
                     Inl x \<Rightarrow> Some (e\<lparr>hp := h2\<rparr>, Some x)
                   | Inr cs \<Rightarrow>
                       (if getProp (realm e) (cells h1) (VRef parent) (last (split_dots path))
                             \<noteq> sanitizedValue
                        then (case N path (e\<lparr>hp := h2\<lparr>cells := cs\<rparr>\<rparr>) of
                                None \<Rightarrow> None
                              | Some e' \<Rightarrow> Some (e', None))
                        else Some (e\<lparr>hp := h2\<lparr>cells := cs\<rparr>\<rparr>, None))))))"

text \<open>The own enumerable properties that an object spread copies.\<close>

definition own_entries :: "(addr \<Rightarrow> cell option) \<Rightarrow> jsval \<Rightarrow> (string \<times> jsval) list" where
  "own_entries cs v =
     (case v of
        VRef a \<Rightarrow>
          (case cs a of
             Some (ObjCell ps) \<Rightarrow> ps
           | Some (ArrCell xs ps) \<Rightarrow> zip (map show_nat [0 ..< length xs]) xs @ ps
           | None \<Rightarrow> [])
      | VStr s \<Rightarrow> zip (map show_nat [0 ..< length s]) (map (\<lambda>c. VStr [c]) s)
      | _ \<Rightarrow> [])"

definition spread :: "(string \<times> jsval) list \<Rightarrow> (string \<times> jsval) list \<Rightarrow> (string \<times> jsval) list" where
  "spread acc entries = foldl (\<lambda>acc kv. AList.update (fst kv) (snd kv) acc) acc entries"

text \<open>
  \<open>set\<close>. An object (or array) argument is sanitized and merged into a new root object; a
  string argument goes to \<open>setByPath\<close>; anything else is reported and ignored.
\<close>

definition merge_state :: "notifier \<Rightarrow> jv \<Rightarrow> engine \<Rightarrow> engine option" where
  "merge_state N pathOrState e =
     (case alloc (hp e) (sanitizeState pathOrState) of
        (h1, sanitizedState) \<Rightarrow>
          N ''*'' (e\<lparr>hp := \<lparr>cells = (cells h1)(nxt h1 \<mapsto>
                              ObjCell (spread (spread [] (own_entries (cells h1) (VRef (state e))))
                                        (own_entries (cells h1) sanitizedState))),
                          nxt = Suc (nxt h1)\<rparr>,
                    state := nxt h1\<rparr>))"

fun set_js :: "notifier \<Rightarrow> jv \<Rightarrow> jv \<Rightarrow> engine \<Rightarrow> engine option" where
  "set_js N (JObj ps) v e = merge_state N (JObj ps) e"
| "set_js N (JArr xs) v e = merge_state N (JArr xs) e"
| "set_js N (JStr path) v e =
     (case setByPath N path v e of None \<Rightarrow> None | Some (e', x) \<Rightarrow> Some e')"
| "set_js N _ v e = Some e"

section \<open>SubscribersManager\<close>

definition totalSubscribers :: "engine \<Rightarrow> nat" where
  "totalSubscribers e = foldl (\<lambda>total ps. total + length (sets e (snd ps))) 0 (subscribers e)"

text \<open>
  \<open>subscribe\<close> with a string path and a function (the one-argument form is
  \<open>subscribe ''*''\<close>). The handle is the closure over \<open>path\<close> and the new subscriber.
\<close>

definition subscribe :: "string \<Rightarrow> callback \<Rightarrow> engine \<Rightarrow> handle \<times> engine" where
  "subscribe path cb e =
     (if totalSubscribers e \<ge> maxSubscribers e then (NoHandle, e)
      else (case map_of (subscribers e) path of
              None \<Rightarrow>
                (Handle path (Suc (nextSym e)),
                 e\<lparr>subscribers := subscribers e @ [(path, nextSym e)],
                   sets := (sets e)(nextSym e := [\<lparr>sid = Suc (nextSym e), callback = cb\<rparr>]),
                   nextSym := Suc (Suc (nextSym e))\<rparr>)
            | Some s \<Rightarrow>
                (Handle path (nextSym e),
                 e\<lparr>sets := (sets e)(s := sets e s @ [\<lparr>sid = nextSym e, callback = cb\<rparr>]),
                   nextSym := Suc (nextSym e)\<rparr>)))"

definition unsubscribe :: "handle \<Rightarrow> engine \<Rightarrow> engine" where
  "unsubscribe h e =
     (case h of
        NoHandle \<Rightarrow> e
      | Handle path i \<Rightarrow>
          (case map_of (subscribers e) path of
             None \<Rightarrow> e
           | Some s \<Rightarrow>
               (if filter (\<lambda>x. sid x \<noteq> i) (sets e s) = []
                then e\<lparr>sets := (sets e)(s := []),
                       subscribers := AList.delete path (subscribers e)\<rparr>
                else e\<lparr>sets := (sets e)(s := filter (\<lambda>x. sid x \<noteq> i) (sets e s))\<rparr>)))"

section \<open>Running a callback\<close>

text \<open>
  \<open>run_prog\<close> executes user code against the engine; \<open>N\<close> is what
  \<open>ReactiveState.notifySubscribers\<close> does when that code calls \<open>set\<close>. The result is
  the new engine and the value returned or the error thrown; \<open>None\<close> is a run that does
  not return.
\<close>

primrec run_prog :: "prog \<Rightarrow> notifier \<Rightarrow> engine \<Rightarrow> (engine \<times> (exn + jsval)) option" where
  "run_prog (Return v) N e = Some (e, Inr v)"
| "run_prog (Throw x) N e = Some (e, Inl x)"
| "run_prog (Get path k) N e = run_prog (k (get e path)) N e"
| "run_prog (Set pathOrState v k) N e =
     (case set_js N pathOrState v e of None \<Rightarrow> None | Some e' \<Rightarrow> run_prog k N e')"
| "run_prog (ReadProp obj key k) N e =
     (if obj = VUndefined \<or> obj = VNull then Some (e, Inl TypeError)
      else run_prog (k (getProp (realm e) (cells (hp e)) obj key)) N e)"
| "run_prog (Subscribe path cb k) N e =
     (case subscribe path (UserCb cb) e of (h, e') \<Rightarrow> run_prog (k h) N e')"
| "run_prog (Unsubscribe h k) N e = run_prog k N (unsubscribe h e)"
| "run_prog (Log v k) N e = run_prog k N (e\<lparr>trace := trace e @ [Obs v]\<rparr>)"

text \<open>
  The body of a callback. The dependency callback of \<open>computed\<close> runs \<open>computeFn\<close>,
  compares with the cache, and on a change stores the value and subscribes an empty
  callback on \<open>computed.<name>\<close>.
\<close>

definition run_callback :: "callback \<Rightarrow> jsval \<Rightarrow> string \<Rightarrow> notifier \<Rightarrow> engine
    \<Rightarrow> (engine \<times> (exn + jsval)) option" where
  "run_callback cb a1 a2 N e =
     (case cb of
        UserCb f \<Rightarrow> run_prog (f a1 a2) N e
      | NoopCb \<Rightarrow> Some (e, Inr VUndefined)
      | ComputedCb name computeFn \<Rightarrow>
          (case run_prog computeFn N e of
             None \<Rightarrow> None
           | Some (e1, Inl x) \<Rightarrow> Some (e1, Inl x)
           | Some (e1, Inr newValue) \<Rightarrow>
               (if newValue \<noteq> (case map_of (computedCache e1) name of
                                  Some v \<Rightarrow> v | None \<Rightarrow> VUndefined)
                then Some (snd (subscribe (''computed.'' @ name) NoopCb
                                 (e1\<lparr>computedCache := AList.update name newValue (computedCache e1)\<rparr>)),
                           Inr VUndefined)
                else Some (e1, Inr VUndefined))))"

text \<open>
  One iteration of a \<open>forEach\<close> body: the callback inside \<open>try\<close>; the flag says whether
  the \<open>catch\<close> put the subscriber on the removal list.
\<close>

definition invoke :: "string \<Rightarrow> notifier \<Rightarrow> subscriber \<Rightarrow> jsval \<Rightarrow> string \<Rightarrow> engine
    \<Rightarrow> (engine \<times> bool) option" where
  "invoke scope N sub a1 a2 e =
     (case run_callback (callback sub) a1 a2 N (e\<lparr>trace := trace e @ [Call scope (sid sub) a1 a2]\<rparr>) of
        None \<Rightarrow> None
      | Some (e1, r) \<Rightarrow>
          Some (e1\<lparr>trace := trace e1 @ [Ret scope (sid sub)]\<rparr>,
                (case r of Inl x \<Rightarrow> x = TypeError \<or> x = ReferenceError | Inr v \<Rightarrow> False)))"

text \<open>
  \<open>Set.prototype.forEach\<close> walks the live Set object \<open>s\<close>: an entry deleted before it is
  reached is not visited, an entry added during the walk is. Entries are in insertion
  order, identifiers grow with insertion and a deleted subscriber is never added again,
  so the next entry is the first one whose identifier is at least \<open>lo\<close>. The walk need
  not end; it is cut after \<open>fuel\<close> entries, with \<open>None\<close>.
\<close>

primrec forEach :: "nat \<Rightarrow> string \<Rightarrow> nat \<Rightarrow> nat \<Rightarrow> (engine \<Rightarrow> jsval) \<Rightarrow> string \<Rightarrow> notifier
    \<Rightarrow> nat list \<Rightarrow> engine \<Rightarrow> (engine \<times> nat list) option" where
  "forEach 0 scope s lo arg changedPath N subscribersToRemove e = None"
| "forEach (Suc fuel) scope s lo arg changedPath N subscribersToRemove e =
     (case find (\<lambda>x. lo \<le> sid x) (sets e s) of
        None \<Rightarrow> Some (e, subscribersToRemove)
      | Some sub \<Rightarrow>
          (case invoke scope N sub (arg e) changedPath e of
             None \<Rightarrow> None
           | Some (e1, failed) \<Rightarrow>
               forEach fuel scope s (Suc (sid sub)) arg changedPath N
                 (if failed then subscribersToRemove @ [sid sub] else subscribersToRemove) e1))"

definition notifyPathSubscribers :: "nat \<Rightarrow> notifier \<Rightarrow> string \<Rightarrow> (engine \<Rightarrow> jv \<Rightarrow> jsval)
    \<Rightarrow> engine \<Rightarrow> engine option" where
  "notifyPathSubscribers fuel N changedPath getValue e =
     (case map_of (subscribers e) changedPath of
        None \<Rightarrow> Some e
      | Some s \<Rightarrow>
          (case forEach fuel changedPath s 0 (\<lambda>e. getValue e (JStr changedPath)) changedPath N [] e of
             None \<Rightarrow> None
           | Some (e1, subscribersToRemove) \<Rightarrow>
               Some (e1\<lparr>sets := (sets e1)
                         (s := filter (\<lambda>x. sid x \<notin> set subscribersToRemove) (sets e1 s))\<rparr>)))"

definition notifyGlobalSubscribers :: "nat \<Rightarrow> notifier \<Rightarrow> jsval \<Rightarrow> string
    \<Rightarrow> engine \<Rightarrow> engine option" where
  "notifyGlobalSubscribers fuel N st changedPath e =
     (case map_of (subscribers e) ''*'' of
        None \<Rightarrow> Some e
      | Some s \<Rightarrow>
          (case forEach fuel ''*'' s 0 (\<lambda>e. st) changedPath N [] e of
             None \<Rightarrow> None
           | Some (e1, subscribersToRemove) \<Rightarrow>
               Some (e1\<lparr>sets := (sets e1)
                         (s := filter (\<lambda>x. sid x \<notin> set subscribersToRemove) (sets e1 s))\<rparr>)))"

text \<open>\<open>Set.prototype.add\<close> on a Set kept in insertion order.\<close>

definition set_add :: "'a \<Rightarrow> 'a list \<Rightarrow> 'a list" where
  "set_add x xs = (if x \<in> set xs then xs else xs @ [x])"

text \<open>
  \<open>notifySubscribers(state, getValue, changedPath)\<close>. No listener is registered on the
  event emitter, so the \<open>state:change\<close> event changes nothing. The \<open>setTimeout\<close> task is
  appended to \<open>timers\<close> with the \<open>state\<close> and \<open>pending\<close> it closes over.
\<close>

definition notifySubscribers :: "nat \<Rightarrow> notifier \<Rightarrow> jsval \<Rightarrow> (engine \<Rightarrow> jv \<Rightarrow> jsval) \<Rightarrow> string
    \<Rightarrow> engine \<Rightarrow> engine option" where
  "notifySubscribers fuel N st getValue changedPath e =
     (if isUpdating e then
        Some (e\<lparr>pendingUpdates := set_add changedPath (pendingUpdates e)\<rparr>)
      else if Suc (updateCount e) > maxUpdatesPerCycle e then
        Some (e\<lparr>updateCount := 0, pendingUpdates := []\<rparr>)
      else
        (case (if changedPath \<noteq> ''*'' \<and> map_of (subscribers e) changedPath \<noteq> None
               then notifyPathSubscribers fuel N changedPath getValue
                      (e\<lparr>updateCount := Suc (updateCount e), isUpdating := True\<rparr>)
               else Some (e\<lparr>updateCount := Suc (updateCount e), isUpdating := True\<rparr>)) of
           None \<Rightarrow> None
         | Some e1 \<Rightarrow>
             (case (if map_of (subscribers e1) ''*'' \<noteq> None
                    then notifyGlobalSubscribers fuel N st changedPath e1
                    else Some e1) of
                None \<Rightarrow> None
              | Some e2 \<Rightarrow>
                  (if pendingUpdates e2 \<noteq> []
                   then Some (e2\<lparr>isUpdating := False, pendingUpdates := [],
                                 timers := timers e2 @ [(st, pendingUpdates e2)]\<rparr>)
                   else Some (e2\<lparr>isUpdating := False, updateCount := 0\<rparr>)))))"

section \<open>The engine as a whole\<close>

text \<open>
  \<open>ReactiveState.notifySubscribers(changedPath)\<close> passes \<open>this.state\<close> and the bound
  \<open>get\<close> to the manager. Callbacks only run inside a dispatch, where \<open>isUpdating\<close> is
  set and the manager returns after recording the path; \<open>notify_inner\<close> is the call as a
  callback reaches it, \<open>notify\<close> the call from outside any callback.
\<close>

definition notify_inner :: notifier where
  "notify_inner changedPath e =
     notifySubscribers 0 (\<lambda>p e. None) (VRef (state e)) get changedPath e"

definition notify :: "nat \<Rightarrow> notifier" where
  "notify fuel changedPath e =
     notifySubscribers fuel notify_inner (VRef (state e)) get changedPath e"

text \<open>
  One \<open>setTimeout\<close> task: \<open>pending.forEach(path => this.notifySubscribers(state, getValue,
  path))\<close>, then the counter is reset.
\<close>

fun replay :: "nat \<Rightarrow> jsval \<Rightarrow> string list \<Rightarrow> engine \<Rightarrow> engine option" where
  "replay fuel st [] e = Some e"
| "replay fuel st (path # pending) e =
     (case notifySubscribers fuel notify_inner st get path e of
        None \<Rightarrow> None
      | Some e1 \<Rightarrow> replay fuel st pending e1)"

definition tick :: "nat \<Rightarrow> engine \<Rightarrow> engine option" where
  "tick fuel e =
     (case timers e of
        [] \<Rightarrow> Some e
      | (st, pending) # rest \<Rightarrow>
          (case replay fuel st pending (e\<lparr>timers := rest\<rparr>) of
             None \<Rightarrow> None
           | Some e1 \<Rightarrow> Some (e1\<lparr>updateCount := 0\<rparr>)))"

fun ticks :: "nat \<Rightarrow> nat \<Rightarrow> engine \<Rightarrow> engine option" where
  "ticks fuel 0 e = Some e"
| "ticks fuel (Suc n) e = (case tick fuel e of None \<Rightarrow> None | Some e1 \<Rightarrow> ticks fuel n e1)"

text \<open>\<open>new ReactiveState(initialState)\<close> for an object \<open>initialState\<close>.\<close>

definition new_ReactiveState :: "realm \<Rightarrow> (string \<times> jv) list \<Rightarrow> engine" where
  "new_ReactiveState R initialState =
     (case alloc \<lparr>cells = Map.empty, nxt = 0\<rparr> (sanitizeState (JObj initialState)) of
        (h, v) \<Rightarrow>
          \<lparr>realm = R, maxDepth = 50, hp = h,
           state = (case v of VRef a \<Rightarrow> a | _ \<Rightarrow> 0),
           subscribers = [], sets = (\<lambda>s. []), nextSym = 0, maxSubscribers = 1000,
           isUpdating = False, pendingUpdates = [], updateCount = 0, maxUpdatesPerCycle = 100,
           timers = [], computedCache = [], computedDependencies = [], trace = []\<rparr>)"

text \<open>
  \<open>computed(name, computeFn, dependencies)\<close>: the first computation runs outside any
  dispatch; an error it throws leaves \<open>computed\<close> before any subscription.
\<close>

definition computed :: "nat \<Rightarrow> string \<Rightarrow> prog \<Rightarrow> string list \<Rightarrow> engine
    \<Rightarrow> (engine \<times> exn option) option" where
  "computed fuel name computeFn dependencies e =
     (case run_prog computeFn (notify fuel)
             (e\<lparr>computedDependencies := AList.update name dependencies (computedDependencies e)\<rparr>) of
        None \<Rightarrow> None
      | Some (e1, Inl x) \<Rightarrow> Some (e1, Some x)
      | Some (e1, Inr v) \<Rightarrow>
          Some (foldl (\<lambda>e dep. snd (subscribe dep (ComputedCb name computeFn) e))
                  (e1\<lparr>computedCache := AList.update name v (computedCache e1)\<rparr>) dependencies,
                None))"

definition getComputed :: "engine \<Rightarrow> string \<Rightarrow> jsval" where
  "getComputed e name = (case map_of (computedCache e) name of Some v \<Rightarrow> v | None \<Rightarrow> VUndefined)"

text \<open>
  A realm for the examples. It lists the function members of \<open>Object.prototype\<close>, which
  every value inherits, and no other builtin member. An array length is accepted from a
  number in range, \<open>null\<close>, a boolean or a string that is a decimal numeral; the examples
  use no other number notation and never assign an object as a length.
\<close>

definition sample_realm :: realm where
  "sample_realm =
     \<lparr>members = (\<lambda>k key.
         if key \<in> set [''hasOwnProperty'', ''isPrototypeOf'', ''propertyIsEnumerable'',
                        ''toLocaleString'', ''toString'', ''valueOf'']
         then Some (VBuiltin key) else None),
      toLength = (\<lambda>cs v.
         case v of
           VNum n \<Rightarrow> (if 0 \<le> n \<and> n < 4294967296 then Some (nat n) else None)
         | VNull \<Rightarrow> Some 0
         | VBool b \<Rightarrow> Some (if b then 1 else 0)
         | VStr s \<Rightarrow> index_of_key s
         | _ \<Rightarrow> None)\<rparr>"

section \<open>Notions used by the properties\<close>






text \<open>
  The skeleton of a trace: where each callback starts and finishes. \<open>blocks scope ids\<close>
  is the skeleton of the subscribers \<open>ids\<close> of one scope running one after the other,
  each to completion.
\<close>

datatype mark = Start string nat | Finish string nat

fun marks :: "event list \<Rightarrow> mark list" where
  "marks [] = []"
| "marks (Call scope i a1 a2 # es) = Start scope i # marks es"
| "marks (Ret scope i # es) = Finish scope i # marks es"
| "marks (Obs v # es) = marks es"

definition blocks :: "string \<Rightarrow> nat list \<Rightarrow> mark list" where
  "blocks scope ids = concat (map (\<lambda>i. [Start scope i, Finish scope i]) ids)"

text \<open>
  A notifier that only does the dispatcher's bookkeeping: it runs no callback and leaves
  the store and the registry alone; inside a dispatch it also leaves the timers alone.
\<close>

definition deferring :: "notifier \<Rightarrow> bool" where
  "deferring N =
     (\<forall>p x x'. N p x = Some x' \<longrightarrow>
        trace x' = trace x \<and> sets x' = sets x \<and> nextSym x' = nextSym x \<and>
        subscribers x' = subscribers x \<and> hp x' = hp x \<and> state x' = state x \<and>
        realm x' = realm x \<and> maxDepth x' = maxDepth x \<and>
        maxSubscribers x' = maxSubscribers x \<and> computedCache x' = computedCache x \<and>
        (isUpdating x \<longrightarrow> isUpdating x' \<and> timers x' = timers x))"


text \<open>
  Subscriber \<open>i\<close> is in no Set object and its identifier has been issued; no callback
  of subscriber \<open>i\<close> starts between two engine states.
\<close>

definition absent :: "nat \<Rightarrow> engine \<Rightarrow> bool" where
  "absent i e = (i < nextSym e \<and> (\<forall>s. i \<notin> sid ` set (sets e s)))"

definition uncalled :: "nat \<Rightarrow> engine \<Rightarrow> engine \<Rightarrow> bool" where
  "uncalled i e e' = (\<exists>T. trace e' = trace e @ T \<and> (\<forall>scope. Start scope i \<notin> set (marks T)))"

text \<open>Every callback start in a piece of trace has a scope and first argument as \<open>P\<close> says.\<close>

fun calls_with :: "(string \<Rightarrow> jsval \<Rightarrow> bool) \<Rightarrow> event list \<Rightarrow> bool" where
  "calls_with P [] = True"
| "calls_with P (Call scope i a1 a2 # es) = (P scope a1 \<and> calls_with P es)"
| "calls_with P (Ret scope i # es) = calls_with P es"
| "calls_with P (Obs v # es) = calls_with P es"

text \<open>
  The registry as \<open>subscribe\<close> keeps it: one entry per path, one Set object per entry,
  Set identities below the counter.
\<close>

definition registry_ok :: "engine \<Rightarrow> bool" where
  "registry_ok e =
     (distinct (map fst (subscribers e)) \<and> distinct (map snd (subscribers e)) \<and>
      list_all (\<lambda>ps. snd ps < nextSym e) (subscribers e))"






section \<open>Example engines\<close>

text \<open>
  A subscriber on \<open>a\<close> that reacts to its own path by writing back to it
  (\<open>v => set("a", v + 1)\<close>), registered on the empty tree; then the first \<open>set("a", 0)\<close>
  of a user.
\<close>

definition storm_cb :: "jsval \<Rightarrow> string \<Rightarrow> prog" where
  "storm_cb v path =
     Set (JStr ''a'') (case v of VNum n \<Rightarrow> JNum (n + 1) | _ \<Rightarrow> JNum 0) (Return VUndefined)"

definition storm_engine :: engine where
  "storm_engine = snd (subscribe ''a'' (UserCb storm_cb) (new_ReactiveState sample_realm []))"

text \<open>
  The same engine after that first \<open>set\<close> and \<open>n\<close> timer tasks, with \<open>c\<close> in the update
  counter: \<open>a\<close> holds \<open>n + 1\<close>, the callback has run \<open>n + 1\<close> times, and one timer task
  for \<open>a\<close> is waiting.
\<close>

fun storm_trace :: "nat \<Rightarrow> event list" where
  "storm_trace 0 = [Call ''a'' 1 (VNum 0) ''a'', Ret ''a'' 1]"
| "storm_trace (Suc n) = storm_trace n @ [Call ''a'' 1 (VNum (int (Suc n))) ''a'', Ret ''a'' 1]"

definition storm_state :: "nat \<Rightarrow> nat \<Rightarrow> engine" where
  "storm_state c n =
     \<lparr>realm = sample_realm, maxDepth = 50,
      hp = \<lparr>cells = [0 \<mapsto> ObjCell [(''a'', VNum (int n + 1))]], nxt = 1\<rparr>,
      state = 0, subscribers = [(''a'', 0)],
      sets = (\<lambda>s. [])(0 := [\<lparr>sid = 1, callback = UserCb storm_cb\<rparr>]),
      nextSym = 2, maxSubscribers = 1000, isUpdating = False, pendingUpdates = [],
      updateCount = c, maxUpdatesPerCycle = 100, timers = [(VRef 0, [''a''])],
      computedCache = [], computedDependencies = [], trace = storm_trace n\<rparr>"



text \<open>
  Two wildcard subscribers and two subscribers on \<open>a.b\<close>, registered alternately; each
  reports its first argument.
\<close>

definition report_cb :: "jsval \<Rightarrow> string \<Rightarrow> prog" where
  "report_cb v path = Log v (Return VUndefined)"


text \<open>
  Two subscribers on \<open>a\<close>: the first calls the unsubscribe handle of the second, the
  second writes to \<open>a\<close> again and reports.
\<close>

definition unsub_cb :: "jsval \<Rightarrow> string \<Rightarrow> prog" where
  "unsub_cb v path = Unsubscribe (Handle ''a'' 2) (Set (JStr ''a'') (JNum 5) (Return VUndefined))"

definition unsub_engine :: engine where
  "unsub_engine =
     snd (subscribe ''a'' (UserCb report_cb)
       (snd (subscribe ''a'' (UserCb unsub_cb) (new_ReactiveState sample_realm []))))"

text \<open>
  A subscriber on \<open>a\<close> that merges \<open>{x: 1}\<close> into the root and then sets \<open>b\<close>; a subscriber
  on \<open>b\<close> that reports the value it is given; a wildcard subscriber that reports the
  property \<open>b\<close> of the state object it is given.
\<close>

definition merge_cb :: "jsval \<Rightarrow> string \<Rightarrow> prog" where
  "merge_cb v path =
     Set (JObj [(''x'', JNum 1)]) JUndefined (Set (JStr ''b'') (JNum 7) (Return VUndefined))"

definition read_b_cb :: "jsval \<Rightarrow> string \<Rightarrow> prog" where
  "read_b_cb st path = ReadProp st ''b'' (\<lambda>x. Log x (Return VUndefined))"

definition stale_engine :: engine where
  "stale_engine =
     snd (subscribe ''*'' (UserCb read_b_cb)
       (snd (subscribe ''b'' (UserCb report_cb)
         (snd (subscribe ''a'' (UserCb merge_cb) (new_ReactiveState sample_realm []))))))"

text \<open>
  \<open>computed("copy", () => get("n"), ["n"])\<close> on the tree \<open>{n: 0}\<close>.
\<close>

definition computed_engine :: "engine option" where
  "computed_engine =
     map_option fst
       (computed 1 ''copy'' (Get (JStr ''n'') Return) [''n'']
          (new_ReactiveState sample_realm [(''n'', JNum 0)]))"

text \<open>
  The same engine once \<open>n\<close> has become \<open>1\<close> in the tree and before the dependency
  callback has run: the cache still holds \<open>0\<close>.
\<close>

definition computed_changed :: engine where
  "computed_changed =
     (case Option.bind computed_engine (set_js (\<lambda>q y. Some y) (JStr ''n'') (JNum 1)) of
        Some e \<Rightarrow> e
      | None \<Rightarrow> new_ReactiveState sample_realm [])"


text \<open>The tree \<open>{a: [1, 2]}\<close>, without subscribers.\<close>

definition array_engine :: engine where
  "array_engine = new_ReactiveState sample_realm [(''a'', JArr [JNum 1, JNum 2])]"

section \<open>Properties of the sanitizer\<close>











section \<open>Properties of get\<close>

lemmas store_defs = new_ReactiveState_def sample_realm_def get_def get_step_def getProp_def
  setProp_def setByPath_def validateKey_def trim_empty_def is_space_def inherited_def
  index_of_key_def is_digit_def

lemmas dispatch_defs = notify_def notify_inner_def notifySubscribers_def
  notifyPathSubscribers_def notifyGlobalSubscribers_def invoke_def run_callback_def
  subscribe_def unsubscribe_def totalSubscribers_def set_add_def tick_def





section \<open>Reserved segments in set\<close>

text \<open>
  C1 (the code departs from it). On the empty tree, \<open>set("__proto__.x", 1)\<close> is not a
  no-op: the reducer of \<open>setByPath\<close> skips the reserved segment and the value is written
  at the root under \<open>x\<close>. A reserved last segment, as in \<open>set("x.__proto__", 1)\<close>, is
  rejected and leaves the tree as it was.
\<close>

theorem C1_proto_segment_writes_root:
  "map_option (\<lambda>e. (cells (hp e) (state e), get e (JStr ''x'')))
     (set_js (notify 1) (JStr ''__proto__.x'') (JNum 1) (new_ReactiveState sample_realm []))
   = Some (Some (ObjCell [(''x'', VNum 1)]), VNum 1)
   \<and> map_option (\<lambda>e. cells (hp e) (state e))
     (set_js (notify 1) (JStr ''x.__proto__'') (JNum 1) (new_ReactiveState sample_realm []))
   = Some (Some (ObjCell []))"
  by (simp add: store_defs dispatch_defs)

section \<open>What a dispatch adds to the trace\<close>

lemma forEach_numeral:
  "forEach (numeral n) scope s lo arg cp N rm e =
     forEach (Suc (pred_numeral n)) scope s lo arg cp N rm e"
  by (simp add: numeral_eq_Suc)

lemma marks_append: "marks (xs @ ys) = marks xs @ marks ys"
  by (induction xs rule: marks.induct) simp_all


lemma notify_inner_trace: "notify_inner p e = Some e' \<Longrightarrow> trace e' = trace e"
  by (auto simp: notify_inner_def notifySubscribers_def notifyPathSubscribers_def
      notifyGlobalSubscribers_def split: if_splits option.splits)

lemma setByPath_trace:
  assumes N: "deferring N"
    and r: "setByPath N p v e = Some (e', x)"
  shows "trace e' = trace e"
  using r N [unfolded deferring_def]
  by (auto simp: setByPath_def split: if_splits prod.splits sum.splits option.splits)

lemma merge_state_trace:
  assumes N: "deferring N"
    and r: "merge_state N a e = Some e'"
  shows "trace e' = trace e"
  using r N [unfolded deferring_def]
  by (auto simp: merge_state_def split: prod.splits)

lemma set_js_trace:
  assumes N: "deferring N"
    and r: "set_js N a v e = Some e'"
  shows "trace e' = trace e"
  using r setByPath_trace [OF N] merge_state_trace [OF N]
  by (cases a) (auto split: option.splits)

lemma subscribe_trace: "subscribe p cb e = (h, e') \<Longrightarrow> trace e' = trace e"
  by (auto simp: subscribe_def split: if_splits option.splits)

lemma subscribe_trace_snd: "trace (snd (subscribe p cb e)) = trace e"
  by (auto simp: subscribe_def split: if_splits option.splits)

lemma unsubscribe_trace: "trace (unsubscribe h e) = trace e"
  by (auto simp: unsubscribe_def split: handle.splits option.splits)

lemma run_prog_marks:
  assumes N: "deferring N"
  shows "run_prog k N e = Some (e', r) \<Longrightarrow> \<exists>T. trace e' = trace e @ T \<and> marks T = []"
proof (induction k arbitrary: e)
  case (Set a v k)
  then obtain e1 where s: "set_js N a v e = Some e1" and k: "run_prog k N e1 = Some (e', r)"
    by (auto split: option.splits)
  from set_js_trace [OF N s] Set.IH [OF k] show ?case by simp
next
  case (Subscribe p cb k)
  obtain h e1 where s: "subscribe p (UserCb cb) e = (h, e1)" by force
  with Subscribe.prems have k: "run_prog (k h) N e1 = Some (e', r)" by simp
  from subscribe_trace [OF s] Subscribe.IH(2) [OF rangeI k] show ?case by simp
next
  case (Unsubscribe h k)
  then have k: "run_prog k N (unsubscribe h e) = Some (e', r)" by simp
  from Unsubscribe.IH [OF k] show ?case by (simp add: unsubscribe_trace)
next
  case (Log v k)
  then have k: "run_prog k N (e\<lparr>trace := trace e @ [Obs v]\<rparr>) = Some (e', r)" by simp
  from Log.IH [OF k] show ?case by (auto simp: marks_append)
next
  case (ReadProp obj key k)
  show ?case
  proof (cases "obj = VUndefined \<or> obj = VNull")
    case True
    with ReadProp.prems show ?thesis by auto
  next
    case False
    with ReadProp.prems
    have "run_prog (k (getProp (realm e) (cells (hp e)) obj key)) N e = Some (e', r)" by simp
    from ReadProp.IH [OF rangeI this] show ?thesis .
  qed
next
  case (Get path k)
  then have "run_prog (k (get e path)) N e = Some (e', r)" by simp
  from Get.IH [OF rangeI this] show ?case .
qed auto


lemma subscribe_sets_sid:
  "subscribe p cb e = (Handle q i, e') \<Longrightarrow> nextSym e \<le> i \<and> i < nextSym e'"
  by (auto simp: subscribe_def split: if_splits option.splits)

lemma run_callback_marks:
  assumes N: "deferring N"
  shows "run_callback cb a1 a2 N e = Some (e', r) \<Longrightarrow> \<exists>T. trace e' = trace e @ T \<and> marks T = []"
proof (cases cb)
  case (UserCb f)
  assume "run_callback cb a1 a2 N e = Some (e', r)"
  with UserCb show ?thesis using run_prog_marks [OF N] by (simp add: run_callback_def)
next
  case (ComputedCb name computeFn)
  assume a: "run_callback cb a1 a2 N e = Some (e', r)"
  then obtain e1 r1 where c: "run_prog computeFn N e = Some (e1, r1)"
    using ComputedCb by (auto simp: run_callback_def split: option.splits)
  from run_prog_marks [OF N c] obtain T where T: "trace e1 = trace e @ T" "marks T = []" by blast
  have "trace e' = trace e1"
    using a c ComputedCb
    by (auto simp: run_callback_def subscribe_trace_snd split: sum.splits if_splits)
  with T show ?thesis by simp
next
  case NoopCb
  assume "run_callback cb a1 a2 N e = Some (e', r)"
  with NoopCb show ?thesis by (simp add: run_callback_def)
qed

lemma invoke_marks:
  assumes N: "deferring N"
    and i: "invoke scope N sub a1 a2 e = Some (e', b)"
  shows "\<exists>T. trace e' = trace e @ T \<and> marks T = [Start scope (sid sub), Finish scope (sid sub)]"
proof -
  let ?e0 = "e\<lparr>trace := trace e @ [Call scope (sid sub) a1 a2]\<rparr>"
  from i obtain e1 r where c: "run_callback (callback sub) a1 a2 N ?e0 = Some (e1, r)"
    and e': "e' = e1\<lparr>trace := trace e1 @ [Ret scope (sid sub)]\<rparr>"
    by (auto simp: invoke_def split: option.splits)
  from run_callback_marks [OF N c] obtain T where "trace e1 = trace ?e0 @ T" "marks T = []"
    by blast
  then show ?thesis using e' by (simp add: marks_append)
qed






section \<open>Order of callbacks in a dispatch\<close>

lemma deferring_notify_inner: "deferring notify_inner"
  unfolding deferring_def
  by (auto simp: notify_inner_def notifySubscribers_def notifyPathSubscribers_def
      notifyGlobalSubscribers_def split: if_splits option.splits)







section \<open>Unsubscribing during a dispatch\<close>

lemma uncalled_refl: "uncalled i e e"
  by (simp add: uncalled_def)

lemma uncalled_same_trace: "trace e' = trace e \<Longrightarrow> uncalled i e e'"
  by (simp add: uncalled_def)

lemma uncalled_trans: "uncalled i e e1 \<Longrightarrow> uncalled i e1 e2 \<Longrightarrow> uncalled i e e2"
  by (auto simp: uncalled_def marks_append)

lemma uncalled_trace_eq: "uncalled i e e1 \<Longrightarrow> trace e2 = trace e1 \<Longrightarrow> uncalled i e e2"
  by (simp add: uncalled_def)

lemma set_js_frame:
  assumes N: "deferring N" and r: "set_js N a v e = Some e'"
  shows "trace e' = trace e \<and> sets e' = sets e \<and> nextSym e' = nextSym e \<and>
         subscribers e' = subscribers e \<and> realm e' = realm e \<and> maxDepth e' = maxDepth e \<and>
         maxSubscribers e' = maxSubscribers e \<and> computedCache e' = computedCache e \<and>
         (isUpdating e \<longrightarrow> isUpdating e' \<and> timers e' = timers e)"
proof (cases a)
  case (JStr p)
  with r obtain x where "setByPath N p v e = Some (e', x)" by (auto split: option.splits)
  then show ?thesis
    using N [unfolded deferring_def]
    by (auto simp: setByPath_def split: if_splits prod.splits sum.splits option.splits)
next
  case (JObj ps)
  with r show ?thesis
    using N [unfolded deferring_def]
    by (auto simp: merge_state_def split: prod.splits)
next
  case (JArr xs)
  with r show ?thesis
    using N [unfolded deferring_def]
    by (auto simp: merge_state_def split: prod.splits)
qed (use r in auto)

lemma subscribe_absent: "absent i e \<Longrightarrow> absent i (snd (subscribe p cb e))"
  by (auto simp: absent_def subscribe_def split: option.splits)

lemma unsubscribe_absent: "absent i e \<Longrightarrow> absent i (unsubscribe h e)"
  by (auto simp: absent_def unsubscribe_def split: handle.splits option.splits)

lemma run_prog_absent:
  assumes N: "deferring N"
  shows "absent i e \<Longrightarrow> run_prog k N e = Some (e', r) \<Longrightarrow> absent i e'"
proof (induction k arbitrary: e)
  case (Set a v k)
  then obtain e1 where s: "set_js N a v e = Some e1" and k: "run_prog k N e1 = Some (e', r)"
    by (auto split: option.splits)
  from set_js_frame [OF N s] Set.prems(1) have "absent i e1" by (simp add: absent_def)
  from Set.IH [OF this k] show ?case .
next
  case (Subscribe p cb k)
  then have k: "run_prog (k (fst (subscribe p (UserCb cb) e))) N (snd (subscribe p (UserCb cb) e))
      = Some (e', r)"
    by (simp add: case_prod_beta)
  from Subscribe.IH(2) [OF rangeI subscribe_absent [OF Subscribe.prems(1)] k] show ?case .
next
  case (Unsubscribe h k)
  then have k: "run_prog k N (unsubscribe h e) = Some (e', r)" by simp
  from Unsubscribe.IH [OF unsubscribe_absent [OF Unsubscribe.prems(1)] k] show ?case .
next
  case (Log v k)
  then have k: "run_prog k N (e\<lparr>trace := trace e @ [Obs v]\<rparr>) = Some (e', r)" by simp
  from Log.prems(1) have "absent i (e\<lparr>trace := trace e @ [Obs v]\<rparr>)" by (simp add: absent_def)
  from Log.IH [OF this k] show ?case .
next
  case (ReadProp obj key k)
  show ?case
  proof (cases "obj = VUndefined \<or> obj = VNull")
    case True
    with ReadProp.prems show ?thesis by auto
  next
    case False
    with ReadProp.prems
    have "run_prog (k (getProp (realm e) (cells (hp e)) obj key)) N e = Some (e', r)" by simp
    from ReadProp.IH [OF rangeI ReadProp.prems(1) this] show ?thesis .
  qed
next
  case (Get path k)
  then have "run_prog (k (get e path)) N e = Some (e', r)" by simp
  from Get.IH [OF rangeI Get.prems(1) this] show ?case .
qed auto

lemma marks_empty_uncalled: "trace e' = trace e @ T \<Longrightarrow> marks T = [] \<Longrightarrow> uncalled i e e'"
  by (auto simp: uncalled_def)

lemma run_callback_absent:
  assumes N: "deferring N" and a: "absent i e"
    and r: "run_callback cb a1 a2 N e = Some (e', x)"
  shows "absent i e'"
proof (cases cb)
  case (UserCb f)
  with r show ?thesis using run_prog_absent [OF N a] by (simp add: run_callback_def)
next
  case (ComputedCb name computeFn)
  with r obtain e1 r1 where c: "run_prog computeFn N e = Some (e1, r1)"
    by (auto simp: run_callback_def split: option.splits)
  from run_prog_absent [OF N a c] have a1: "absent i e1" .
  then have "absent i (snd (subscribe (''computed.'' @ name) NoopCb
      (e1\<lparr>computedCache := AList.update name v (computedCache e1)\<rparr>)))" for v
    by (intro subscribe_absent) (simp add: absent_def)
  with a1 show ?thesis
    using r c ComputedCb
    by (auto simp: run_callback_def split: sum.splits if_splits)
next
  case NoopCb
  with r a show ?thesis by (simp add: run_callback_def)
qed

lemma invoke_absent:
  assumes N: "deferring N" and a: "absent i e" and ne: "sid sub \<noteq> i"
    and r: "invoke scope N sub a1 a2 e = Some (e', b)"
  shows "absent i e' \<and> uncalled i e e'"
proof -
  let ?e0 = "e\<lparr>trace := trace e @ [Call scope (sid sub) a1 a2]\<rparr>"
  from r obtain e1 x where c: "run_callback (callback sub) a1 a2 N ?e0 = Some (e1, x)"
    and e': "e' = e1\<lparr>trace := trace e1 @ [Ret scope (sid sub)]\<rparr>"
    by (auto simp: invoke_def split: option.splits)
  from a have "absent i ?e0" by (simp add: absent_def)
  from run_callback_absent [OF N this c] e' have "absent i e'" by (simp add: absent_def)
  moreover from invoke_marks [OF N r] ne have "uncalled i e e'"
    by (auto simp: uncalled_def)
  ultimately show ?thesis ..
qed

lemma find_in_set: "find P xs = Some x \<Longrightarrow> x \<in> set xs"
  by (induction xs) (auto split: if_splits)

lemma forEach_absent:
  assumes N: "deferring N"
  shows "absent i e \<Longrightarrow> forEach fuel scope s lo arg cp N rm e = Some (e', rm') \<Longrightarrow>
    absent i e' \<and> uncalled i e e'"
proof (induction fuel arbitrary: lo rm e)
  case 0
  then show ?case by simp
next
  case (Suc fuel)
  show ?case
  proof (cases "find (\<lambda>x. lo \<le> sid x) (sets e s)")
    case None
    with Suc.prems show ?thesis by (simp add: uncalled_refl)
  next
    case (Some sub)
    with Suc.prems obtain e1 failed where
      iv: "invoke scope N sub (arg e) cp e = Some (e1, failed)" and
      f: "forEach fuel scope s (Suc (sid sub)) arg cp N
           (if failed then rm @ [sid sub] else rm) e1 = Some (e', rm')"
      by (auto split: option.splits)
    from find_in_set [OF Some] Suc.prems(1) have "sid sub \<noteq> i"
      by (auto simp: absent_def)
    from invoke_absent [OF N Suc.prems(1) this iv] have 1: "absent i e1" "uncalled i e e1"
      by simp_all
    from Suc.IH [OF 1(1) f] 1(2) show ?thesis by (auto intro: uncalled_trans)
  qed
qed

lemma filter_absent:
  "absent i e \<Longrightarrow> absent i (e\<lparr>sets := (sets e)(s := filter P (sets e s))\<rparr>)"
  by (auto simp: absent_def)

lemma notifyPathSubscribers_absent:
  assumes N: "deferring N" and a: "absent i e"
    and r: "notifyPathSubscribers fuel N p getValue e = Some e'"
  shows "absent i e' \<and> uncalled i e e'"
proof (cases "map_of (subscribers e) p")
  case None
  with r a show ?thesis by (simp add: notifyPathSubscribers_def uncalled_refl)
next
  case (Some s)
  with r obtain e1 rm where
    f: "forEach fuel p s 0 (\<lambda>e. getValue e (JStr p)) p N [] e = Some (e1, rm)" and
    e': "e' = e1\<lparr>sets := (sets e1)(s := filter (\<lambda>x. sid x \<notin> set rm) (sets e1 s))\<rparr>"
    by (auto simp: notifyPathSubscribers_def split: option.splits)
  from forEach_absent [OF N a f] show ?thesis
    unfolding e' by (auto intro: filter_absent uncalled_trace_eq)
qed

lemma notifyGlobalSubscribers_absent:
  assumes N: "deferring N" and a: "absent i e"
    and r: "notifyGlobalSubscribers fuel N st p e = Some e'"
  shows "absent i e' \<and> uncalled i e e'"
proof (cases "map_of (subscribers e) ''*''")
  case None
  with r a show ?thesis by (simp add: notifyGlobalSubscribers_def uncalled_refl)
next
  case (Some s)
  with r obtain e1 rm where
    f: "forEach fuel ''*'' s 0 (\<lambda>e. st) p N [] e = Some (e1, rm)" and
    e': "e' = e1\<lparr>sets := (sets e1)(s := filter (\<lambda>x. sid x \<notin> set rm) (sets e1 s))\<rparr>"
    by (auto simp: notifyGlobalSubscribers_def split: option.splits)
  from forEach_absent [OF N a f] show ?thesis
    unfolding e' by (auto intro: filter_absent uncalled_trace_eq)
qed

lemma notifySubscribers_absent:
  assumes N: "deferring N" and a: "absent i e"
    and r: "notifySubscribers fuel N st getValue p e = Some e'"
  shows "absent i e' \<and> uncalled i e e'"
proof (cases "isUpdating e \<or> Suc (updateCount e) > maxUpdatesPerCycle e")
  case True
  with r have "sets e' = sets e" "nextSym e' = nextSym e" "trace e' = trace e"
    by (auto simp: notifySubscribers_def split: if_splits)
  with a show ?thesis by (simp add: absent_def uncalled_same_trace)
next
  case False
  let ?e0 = "e\<lparr>updateCount := Suc (updateCount e), isUpdating := True\<rparr>"
  from r False obtain e1 e2 where
    p1: "(if p \<noteq> ''*'' \<and> map_of (subscribers e) p \<noteq> None
           then notifyPathSubscribers fuel N p getValue ?e0 else Some ?e0) = Some e1" and
    p2: "(if map_of (subscribers e1) ''*'' \<noteq> None
           then notifyGlobalSubscribers fuel N st p e1 else Some e1) = Some e2" and
    t: "trace e' = trace e2" "sets e' = sets e2" "nextSym e' = nextSym e2"
    by (auto simp: notifySubscribers_def split: if_splits option.splits)
  from a have a0: "absent i ?e0" by (simp add: absent_def)
  have u0: "uncalled i e ?e0" by (simp add: uncalled_same_trace)
  have 1: "absent i e1 \<and> uncalled i ?e0 e1"
    using p1 notifyPathSubscribers_absent [OF N a0] a0
    by (auto simp: uncalled_refl split: if_splits)
  then have 2: "absent i e2 \<and> uncalled i e1 e2"
    using p2 notifyGlobalSubscribers_absent [OF N]
    by (auto simp: uncalled_refl split: if_splits)
  from 1 2 u0 have "uncalled i e e2" by (blast intro: uncalled_trans)
  with 2 t show ?thesis by (auto simp: absent_def intro: uncalled_trace_eq)
qed

lemma replay_absent:
  "absent i e \<Longrightarrow> replay fuel st pending e = Some e' \<Longrightarrow> absent i e' \<and> uncalled i e e'"
proof (induction pending arbitrary: e)
  case Nil
  then show ?case by (simp add: uncalled_refl)
next
  case (Cons p pending)
  then obtain e1 where n: "notifySubscribers fuel notify_inner st get p e = Some e1"
    and r: "replay fuel st pending e1 = Some e'"
    by (auto split: option.splits)
  from notifySubscribers_absent [OF deferring_notify_inner Cons.prems(1) n]
  have 1: "absent i e1" "uncalled i e e1" by simp_all
  from Cons.IH [OF 1(1) r] 1(2) show ?case by (auto intro: uncalled_trans)
qed

lemma tick_absent:
  assumes a: "absent i e" and r: "tick fuel e = Some e'"
  shows "absent i e' \<and> uncalled i e e'"
proof (cases "timers e")
  case Nil
  with r a show ?thesis by (simp add: tick_def uncalled_refl)
next
  case (Cons t rest)
  obtain st pending where t: "t = (st, pending)" by force
  with r Cons obtain e1 where rp: "replay fuel st pending (e\<lparr>timers := rest\<rparr>) = Some e1"
    and e': "e' = e1\<lparr>updateCount := 0\<rparr>"
    by (auto simp: tick_def split: option.splits)
  from a have "absent i (e\<lparr>timers := rest\<rparr>)" by (simp add: absent_def)
  from replay_absent [OF this rp] show ?thesis
    unfolding e' by (auto simp: absent_def uncalled_def)
qed

lemma ticks_absent:
  "absent i e \<Longrightarrow> ticks fuel n e = Some e' \<Longrightarrow> absent i e' \<and> uncalled i e e'"
proof (induction n arbitrary: e)
  case 0
  then show ?case by (simp add: uncalled_refl)
next
  case (Suc n)
  then obtain e1 where t: "tick fuel e = Some e1" and r: "ticks fuel n e1 = Some e'"
    by (auto split: option.splits)
  from tick_absent [OF Suc.prems(1) t] have 1: "absent i e1" "uncalled i e e1" by simp_all
  from Suc.IH [OF 1(1) r] 1(2) show ?case by (auto intro: uncalled_trans)
qed

lemma unsubscribe_owned:
  assumes "i < nextSym e"
    and "\<forall>s. i \<in> sid ` set (sets e s) \<longrightarrow> map_of (subscribers e) p = Some s"
  shows "absent i (unsubscribe (Handle p i) e)"
  using assms
  by (auto simp: absent_def unsubscribe_def split: option.splits)

lemma subscribe_handle_owned:
  assumes "\<forall>s. \<forall>x \<in> set (sets e s). sid x < nextSym e"
    and "fst (subscribe q cb e) = Handle q' i"
  shows "q' = q \<and> i < nextSym (snd (subscribe q cb e)) \<and>
    (\<forall>s. i \<in> sid ` set (sets (snd (subscribe q cb e)) s)
        \<longrightarrow> map_of (subscribers (snd (subscribe q cb e))) q = Some s)"
  using assms
  apply (auto simp: subscribe_def map_add_def split: if_splits option.splits)
   apply (metis Suc_n_not_le_n less_imp_le_nat)
  apply (metis less_irrefl)
  done

text \<open>
  C8. Calling the unsubscribe handle of subscriber \<open>i\<close>, which is a member of the Set
  registered under its path and of no other, takes it out of the registry at once. From
  a state in which \<open>i\<close> is in no Set, no callback of \<open>i\<close> starts any more: not in the
  rest of the running callback, not in the rest of the \<open>forEach\<close> walk in progress,
  not in the wildcard phase, not in a later \<open>notifySubscribers\<close> call and not in any
  deferred pass.
\<close>

theorem C8_unsubscribed_never_called:
  "(i < nextSym e \<and> (\<forall>s. i \<in> sid ` set (sets e s) \<longrightarrow> map_of (subscribers e) p = Some s)
      \<longrightarrow> absent i (unsubscribe (Handle p i) e))
   \<and> (absent i x \<longrightarrow>
        (\<forall>k e' r. run_prog k notify_inner x = Some (e', r)
            \<longrightarrow> absent i e' \<and> uncalled i x e')
      \<and> (\<forall>fuel scope s lo arg cp rm e' rm'.
            forEach fuel scope s lo arg cp notify_inner rm x = Some (e', rm')
            \<longrightarrow> absent i e' \<and> uncalled i x e')
      \<and> (\<forall>fuel st q e'. notifyGlobalSubscribers fuel notify_inner st q x = Some e'
            \<longrightarrow> absent i e' \<and> uncalled i x e')
      \<and> (\<forall>fuel st q e'. notifySubscribers fuel notify_inner st get q x = Some e'
            \<longrightarrow> absent i e' \<and> uncalled i x e')
      \<and> (\<forall>fuel n e'. ticks fuel n x = Some e' \<longrightarrow> absent i e' \<and> uncalled i x e'))"
proof (intro conjI impI allI)
  assume "i < nextSym e \<and> (\<forall>s. i \<in> sid ` set (sets e s) \<longrightarrow> map_of (subscribers e) p = Some s)"
  then show "absent i (unsubscribe (Handle p i) e)"
    using unsubscribe_owned by blast
next
  fix k e' r
  assume a: "absent i x" and r: "run_prog k notify_inner x = Some (e', r)"
  from run_prog_absent [OF deferring_notify_inner a r] show "absent i e'" .
  from run_prog_marks [OF deferring_notify_inner r] show "uncalled i x e'"
    by (auto intro: marks_empty_uncalled)
next
  fix fuel scope s lo arg cp rm e' rm'
  assume a: "absent i x"
    and r: "forEach fuel scope s lo arg cp notify_inner rm x = Some (e', rm')"
  from forEach_absent [OF deferring_notify_inner a r]
  show "absent i e'" and "uncalled i x e'" by simp_all
next
  fix fuel st q e'
  assume a: "absent i x" and r: "notifyGlobalSubscribers fuel notify_inner st q x = Some e'"
  from notifyGlobalSubscribers_absent [OF deferring_notify_inner a r]
  show "absent i e'" and "uncalled i x e'" by simp_all
next
  fix fuel st q e'
  assume a: "absent i x" and r: "notifySubscribers fuel notify_inner st get q x = Some e'"
  from notifySubscribers_absent [OF deferring_notify_inner a r]
  show "absent i e'" and "uncalled i x e'" by simp_all
next
  fix fuel n e'
  assume a: "absent i x" and r: "ticks fuel n x = Some e'"
  from ticks_absent [OF a r]
  show "absent i e'" and "uncalled i x e'" by simp_all
qed

text \<open>
  The first of two subscribers on \<open>a\<close> unsubscribes the second and writes \<open>a\<close> again:
  the second is called neither in the pass for \<open>set("a", 1)\<close> nor in the deferred pass.
\<close>

lemma unsub_engine_registry:
  "nextSym unsub_engine = Suc (Suc (Suc 0)) \<and> subscribers unsub_engine = [(''a'', 0)] \<and>
   sets unsub_engine =
     (\<lambda>s. [])(0 := [\<lparr>sid = Suc 0, callback = UserCb unsub_cb\<rparr>,
                     \<lparr>sid = Suc (Suc 0), callback = UserCb report_cb\<rparr>])"
  by (simp add: unsub_engine_def subscribe_def new_ReactiveState_def totalSubscribers_def)

lemma unsub_run:
  "map_option (\<lambda>e. marks (trace e))
     (notifySubscribers 5 notify_inner (VRef 0) get ''a''
        (unsubscribe (Handle ''a'' 2) unsub_engine)) = Some [Start ''a'' 1, Finish ''a'' 1]
   \<and> map_option (\<lambda>e. (marks (trace e), timers e))
     (Option.bind (set_js (notify 5) (JStr ''a'') (JNum 1) unsub_engine) (ticks 5 3))
     = Some ([Start ''a'' 1, Finish ''a'' 1, Start ''a'' 1, Finish ''a'' 1], [])"
  by code_simp

theorem C8_unsubscribe_witness:
  "absent 2 (unsubscribe (Handle ''a'' 2) unsub_engine)
   \<and> (\<exists>e'. notifySubscribers 5 notify_inner (VRef 0) get ''a''
              (unsubscribe (Handle ''a'' 2) unsub_engine) = Some e'
           \<and> absent 2 e' \<and> uncalled 2 (unsubscribe (Handle ''a'' 2) unsub_engine) e')
   \<and> map_option (\<lambda>e. (marks (trace e), timers e))
        (Option.bind (set_js (notify 5) (JStr ''a'') (JNum 1) unsub_engine) (ticks 5 3))
      = Some ([Start ''a'' 1, Finish ''a'' 1, Start ''a'' 1, Finish ''a'' 1], [])"
proof -
  let ?x = "unsubscribe (Handle ''a'' 2) unsub_engine"
  have own: "2 < nextSym unsub_engine \<and>
    (\<forall>s. 2 \<in> sid ` set (sets unsub_engine s) \<longrightarrow> map_of (subscribers unsub_engine) ''a'' = Some s)"
    by (auto simp: unsub_engine_registry)
  from unsub_run obtain e' where
    r: "notifySubscribers 5 notify_inner (VRef 0) get ''a'' ?x = Some e'"
    by auto
  note C = C8_unsubscribed_never_called [of 2 unsub_engine "''a''" ?x]
  have a: "absent 2 ?x"
    using conjunct1 [OF C, THEN mp, OF own] .
  have "\<forall>fuel st q e'. notifySubscribers fuel notify_inner st get q ?x = Some e'
      \<longrightarrow> absent 2 e' \<and> uncalled 2 ?x e'"
    using conjunct2 [OF C, THEN mp, OF a] by (elim conjE) assumption
  with r have "absent 2 e' \<and> uncalled 2 ?x e'" by blast
  with a r unsub_run show ?thesis by blast
qed



section \<open>The state object of a deferred pass\<close>

lemma calls_with_append: "calls_with P (xs @ ys) = (calls_with P xs \<and> calls_with P ys)"
  by (induction P xs rule: calls_with.induct) simp_all

lemma calls_with_no_marks: "marks T = [] \<Longrightarrow> calls_with P T"
  by (induction P T rule: calls_with.induct) simp_all

lemma calls_with_mono:
  "calls_with P T \<Longrightarrow> (\<And>sc a. P sc a \<Longrightarrow> Q sc a) \<Longrightarrow> calls_with Q T"
  by (induction P T rule: calls_with.induct) simp_all

lemma subscribe_updating:
  "isUpdating (snd (subscribe p cb e)) = isUpdating e \<and>
   timers (snd (subscribe p cb e)) = timers e"
  by (auto simp: subscribe_def split: option.splits)

lemma unsubscribe_updating:
  "isUpdating (unsubscribe h e) = isUpdating e \<and> timers (unsubscribe h e) = timers e"
  by (auto simp: unsubscribe_def split: handle.splits option.splits)

lemma run_prog_updating:
  assumes N: "deferring N"
  shows "isUpdating e \<Longrightarrow> run_prog k N e = Some (e', r) \<Longrightarrow>
    isUpdating e' \<and> timers e' = timers e"
proof (induction k arbitrary: e)
  case (Set a v k)
  then obtain e1 where s: "set_js N a v e = Some e1" and k: "run_prog k N e1 = Some (e', r)"
    by (auto split: option.splits)
  from set_js_frame [OF N s] Set.prems(1) have 1: "isUpdating e1" "timers e1 = timers e"
    by simp_all
  from Set.IH [OF 1(1) k] 1(2) show ?case by simp
next
  case (Subscribe p cb k)
  then have k: "run_prog (k (fst (subscribe p (UserCb cb) e))) N (snd (subscribe p (UserCb cb) e))
      = Some (e', r)"
    by (simp add: case_prod_beta)
  from Subscribe.prems(1) have "isUpdating (snd (subscribe p (UserCb cb) e))"
    by (simp add: subscribe_updating)
  from Subscribe.IH(2) [OF rangeI this k] show ?case by (simp add: subscribe_updating)
next
  case (Unsubscribe h k)
  then have k: "run_prog k N (unsubscribe h e) = Some (e', r)" by simp
  from Unsubscribe.prems(1) have "isUpdating (unsubscribe h e)"
    by (simp add: unsubscribe_updating)
  from Unsubscribe.IH [OF this k] show ?case by (simp add: unsubscribe_updating)
next
  case (Log v k)
  then have k: "run_prog k N (e\<lparr>trace := trace e @ [Obs v]\<rparr>) = Some (e', r)" by simp
  from Log.prems(1) have "isUpdating (e\<lparr>trace := trace e @ [Obs v]\<rparr>)" by simp
  from Log.IH [OF this k] show ?case by simp
next
  case (ReadProp obj key k)
  show ?case
  proof (cases "obj = VUndefined \<or> obj = VNull")
    case True
    with ReadProp.prems show ?thesis by auto
  next
    case False
    with ReadProp.prems
    have "run_prog (k (getProp (realm e) (cells (hp e)) obj key)) N e = Some (e', r)" by simp
    from ReadProp.IH [OF rangeI ReadProp.prems(1) this] show ?thesis .
  qed
next
  case (Get path k)
  then have "run_prog (k (get e path)) N e = Some (e', r)" by simp
  from Get.IH [OF rangeI Get.prems(1) this] show ?case .
qed auto

lemma run_callback_updating:
  assumes N: "deferring N" and u: "isUpdating e"
    and r: "run_callback cb a1 a2 N e = Some (e', x)"
  shows "isUpdating e' \<and> timers e' = timers e"
proof (cases cb)
  case (UserCb f)
  with r show ?thesis using run_prog_updating [OF N u] by (simp add: run_callback_def)
next
  case (ComputedCb name computeFn)
  with r obtain e1 r1 where c: "run_prog computeFn N e = Some (e1, r1)"
    by (auto simp: run_callback_def split: option.splits)
  from run_prog_updating [OF N u c] show ?thesis
    using r c ComputedCb
    by (auto simp: run_callback_def subscribe_updating split: sum.splits if_splits)
next
  case NoopCb
  with r u show ?thesis by (simp add: run_callback_def)
qed

lemma invoke_calls:
  assumes N: "deferring N" and u: "isUpdating e"
    and r: "invoke scope N sub a1 a2 e = Some (e', b)"
  shows "\<exists>T. trace e' = trace e @ T \<and> calls_with (\<lambda>sc a. sc = scope \<and> a = a1) T
      \<and> isUpdating e' \<and> timers e' = timers e"
proof -
  let ?e0 = "e\<lparr>trace := trace e @ [Call scope (sid sub) a1 a2]\<rparr>"
  from r obtain e1 x where c: "run_callback (callback sub) a1 a2 N ?e0 = Some (e1, x)"
    and e': "e' = e1\<lparr>trace := trace e1 @ [Ret scope (sid sub)]\<rparr>"
    by (auto simp: invoke_def split: option.splits)
  from u have "isUpdating ?e0" by simp
  from run_callback_updating [OF N this c] have 1: "isUpdating e1" "timers e1 = timers e"
    by simp_all
  from run_callback_marks [OF N c] obtain T where
    T: "trace e1 = trace ?e0 @ T" "marks T = []" by blast
  have "calls_with (\<lambda>sc a. sc = scope \<and> a = a1) (Call scope (sid sub) a1 a2 # T @ [Ret scope (sid sub)])"
    using calls_with_no_marks [OF T(2)] by (simp add: calls_with_append)
  with T 1 e' show ?thesis
    by (intro exI [of _ "Call scope (sid sub) a1 a2 # T @ [Ret scope (sid sub)]"]) simp
qed

lemma forEach_calls:
  assumes N: "deferring N" and Q: "\<And>x. Q (arg x)"
  shows "isUpdating e \<Longrightarrow> forEach fuel scope s lo arg cp N rm e = Some (e', rm') \<Longrightarrow>
    \<exists>T. trace e' = trace e @ T \<and> calls_with (\<lambda>sc a. sc = scope \<and> Q a) T
       \<and> isUpdating e' \<and> timers e' = timers e"
proof (induction fuel arbitrary: lo rm e)
  case 0
  then show ?case by simp
next
  case (Suc fuel)
  show ?case
  proof (cases "find (\<lambda>x. lo \<le> sid x) (sets e s)")
    case None
    with Suc.prems show ?thesis by (intro exI [of _ "[]"]) simp
  next
    case (Some sub)
    with Suc.prems obtain e1 failed where
      iv: "invoke scope N sub (arg e) cp e = Some (e1, failed)" and
      f: "forEach fuel scope s (Suc (sid sub)) arg cp N
           (if failed then rm @ [sid sub] else rm) e1 = Some (e', rm')"
      by (auto split: option.splits)
    from invoke_calls [OF N Suc.prems(1) iv] obtain T1 where
      T1: "trace e1 = trace e @ T1" "calls_with (\<lambda>sc a. sc = scope \<and> a = arg e) T1"
        "isUpdating e1" "timers e1 = timers e"
      by blast
    from Suc.IH [OF T1(3) f] obtain T2 where
      T2: "trace e' = trace e1 @ T2" "calls_with (\<lambda>sc a. sc = scope \<and> Q a) T2"
        "isUpdating e'" "timers e' = timers e1"
      by blast
    have "calls_with (\<lambda>sc a. sc = scope \<and> Q a) T1"
      using T1(2) by (rule calls_with_mono) (simp add: Q)
    with T1 T2 show ?thesis
      by (intro exI [of _ "T1 @ T2"]) (simp add: calls_with_append)
  qed
qed

lemma notifySubscribers_calls:
  assumes N: "deferring N"
    and r: "notifySubscribers fuel N st getValue p e = Some e'"
  shows "\<exists>T. trace e' = trace e @ T \<and> calls_with (\<lambda>sc a. sc = ''*'' \<longrightarrow> a = st) T
      \<and> (timers e' = timers e \<or> (\<exists>pending. timers e' = timers e @ [(st, pending)]))"
proof (cases "isUpdating e \<or> Suc (updateCount e) > maxUpdatesPerCycle e")
  case True
  with r have "trace e' = trace e" "timers e' = timers e"
    by (auto simp: notifySubscribers_def split: if_splits)
  then show ?thesis by (intro exI [of _ "[]"]) simp
next
  case False
  let ?e0 = "e\<lparr>updateCount := Suc (updateCount e), isUpdating := True\<rparr>"
  let ?P = "\<lambda>sc a. sc = ''*'' \<longrightarrow> a = st"
  from r False obtain e1 e2 where
    p1: "(if p \<noteq> ''*'' \<and> map_of (subscribers e) p \<noteq> None
           then notifyPathSubscribers fuel N p getValue ?e0 else Some ?e0) = Some e1" and
    p2: "(if map_of (subscribers e1) ''*'' \<noteq> None
           then notifyGlobalSubscribers fuel N st p e1 else Some e1) = Some e2" and
    t: "trace e' = trace e2"
       "timers e' = timers e2 \<or> (\<exists>pending. timers e' = timers e2 @ [(st, pending)])"
    by (auto simp: notifySubscribers_def split: if_splits option.splits)
  have u0: "isUpdating ?e0" by simp
  have "\<exists>T. trace e1 = trace e @ T \<and> calls_with ?P T \<and> isUpdating e1 \<and> timers e1 = timers e"
  proof (cases "p \<noteq> ''*'' \<and> map_of (subscribers e) p \<noteq> None")
    case True
    with p1 obtain s x rm where
      f: "forEach fuel p s 0 (\<lambda>e. getValue e (JStr p)) p N [] ?e0 = Some (x, rm)" and
      x: "trace e1 = trace x" "isUpdating e1 = isUpdating x" "timers e1 = timers x"
      by (auto simp: notifyPathSubscribers_def split: option.splits)
    from forEach_calls [OF N, of "\<lambda>a. True", OF TrueI u0 f] obtain T where
      T: "trace x = trace ?e0 @ T" "calls_with (\<lambda>sc a. sc = p \<and> True) T"
         "isUpdating x" "timers x = timers ?e0"
      by blast
    have "calls_with ?P T"
      using T(2) by (rule calls_with_mono) (use True in simp)
    with T x show ?thesis by (intro exI [of _ T]) simp
  next
    case False
    with p1 have "e1 = ?e0" by auto
    then show ?thesis by (intro exI [of _ "[]"]) simp
  qed
  then obtain T1 where T1: "trace e1 = trace e @ T1" "calls_with ?P T1" "isUpdating e1"
    "timers e1 = timers e" by blast
  have "\<exists>T. trace e2 = trace e1 @ T \<and> calls_with ?P T \<and> timers e2 = timers e1"
  proof (cases "map_of (subscribers e1) ''*'' \<noteq> None")
    case True
    with p2 obtain s x rm where
      f: "forEach fuel ''*'' s 0 (\<lambda>e. st) p N [] e1 = Some (x, rm)" and
      x: "trace e2 = trace x" "timers e2 = timers x"
      by (auto simp: notifyGlobalSubscribers_def split: option.splits)
    from forEach_calls [OF N, of "\<lambda>a. a = st", OF refl T1(3) f] obtain T where
      T: "trace x = trace e1 @ T" "calls_with (\<lambda>sc a. sc = ''*'' \<and> a = st) T"
         "timers x = timers e1"
      by blast
    have "calls_with ?P T"
      using T(2) by (rule calls_with_mono) simp
    with T x show ?thesis by (intro exI [of _ T]) simp
  next
    case False
    with p2 have "e2 = e1" by auto
    then show ?thesis by (intro exI [of _ "[]"]) simp
  qed
  then obtain T2 where T2: "trace e2 = trace e1 @ T2" "calls_with ?P T2" "timers e2 = timers e1"
    by blast
  show ?thesis
    using T1 T2 t by (intro exI [of _ "T1 @ T2"]) (auto simp: calls_with_append)
qed

lemma replay_calls:
  "replay fuel st pending e = Some e' \<Longrightarrow>
   \<exists>T new. trace e' = trace e @ T \<and> calls_with (\<lambda>sc a. sc = ''*'' \<longrightarrow> a = st) T
      \<and> timers e' = timers e @ new \<and> list_all (\<lambda>t. fst t = st) new"
proof (induction pending arbitrary: e)
  case Nil
  then show ?case by (intro exI [of _ "[]"]) simp
next
  case (Cons p pending)
  then obtain e1 where n: "notifySubscribers fuel notify_inner st get p e = Some e1"
    and r: "replay fuel st pending e1 = Some e'"
    by (auto split: option.splits)
  from notifySubscribers_calls [OF deferring_notify_inner n] obtain T1 new1 where
    1: "trace e1 = trace e @ T1" "calls_with (\<lambda>sc a. sc = ''*'' \<longrightarrow> a = st) T1"
       "timers e1 = timers e @ new1" "list_all (\<lambda>t. fst t = st) new1"
    by (elim exE conjE disjE) (force intro: that [of _ "[]"], force intro: that)
  from Cons.IH [OF r] obtain T2 new2 where
    2: "trace e' = trace e1 @ T2" "calls_with (\<lambda>sc a. sc = ''*'' \<longrightarrow> a = st) T2"
       "timers e' = timers e1 @ new2" "list_all (\<lambda>t. fst t = st) new2"
    by blast
  show ?case
    using 1 2 by (intro exI [of _ "T1 @ T2"] exI [of _ "new1 @ new2"]) (simp add: calls_with_append)
qed

lemma tick_calls:
  assumes t: "timers e = (st, pending) # rest" and r: "tick fuel e = Some e'"
  shows "\<exists>T new. trace e' = trace e @ T \<and> calls_with (\<lambda>sc a. sc = ''*'' \<longrightarrow> a = st) T
      \<and> timers e' = rest @ new \<and> list_all (\<lambda>t. fst t = st) new"
proof -
  from t r obtain e1 where rp: "replay fuel st pending (e\<lparr>timers := rest\<rparr>) = Some e1"
    and e': "e' = e1\<lparr>updateCount := 0\<rparr>"
    by (auto simp: tick_def split: option.splits)
  from replay_calls [OF rp] show ?thesis unfolding e' by simp
qed

lemma alloc_frame:
  "alloc h t = (h', v) \<Longrightarrow> nxt h \<le> nxt h' \<and> (\<forall>a < nxt h. cells h' a = cells h a)"
  "alloc_list h ts = (h', vs) \<Longrightarrow> nxt h \<le> nxt h' \<and> (\<forall>a < nxt h. cells h' a = cells h a)"
  "alloc_props h ps = (h', qs) \<Longrightarrow> nxt h \<le> nxt h' \<and> (\<forall>a < nxt h. cells h' a = cells h a)"
proof (induction h t and h ts and h ps arbitrary: h' v and h' vs and h' qs
    rule: alloc_alloc_list_alloc_props.induct)
  case (6 h xs)
  then show ?case by (auto split: prod.splits)
next
  case (7 h ps)
  then show ?case by (auto split: prod.splits)
next
  case (9 h x xs)
  then show ?case by (fastforce split: prod.splits)
next
  case (11 h key x ps)
  then show ?case by (fastforce split: prod.splits)
qed auto

lemma merge_new_root:
  assumes N: "deferring N" and s: "state e < nxt (hp e)"
    and r: "merge_state N a e = Some e'"
  shows "state e' \<noteq> state e \<and> cells (hp e') (state e) = cells (hp e) (state e)"
proof -
  obtain h1 sv where al: "alloc (hp e) (sanitizeState a) = (h1, sv)" by force
  from alloc_frame(1) [OF al] s have 1: "state e < nxt h1" "cells h1 (state e) = cells (hp e) (state e)"
    by auto
  from r al N [unfolded deferring_def] 1 show ?thesis
    by (auto simp: merge_state_def)
qed

text \<open>
  C10. \<open>ReactiveState.notifySubscribers\<close> hands the manager the root object that is
  current when the call begins; every wildcard callback of that call gets this object as
  first argument, and the timer task it schedules keeps it. A timer task hands its
  wildcard callbacks the object it captured and re-schedules with the same object. An
  object-merge \<open>set\<close> inside a callback makes a new root object and leaves the old one as
  it is, so after such a merge the wildcard subscribers of the deferred pass are given
  the old root.
\<close>

theorem C10_deferred_wildcard_gets_captured_root:
  "(notify fuel p e = Some e' \<longrightarrow>
      (\<exists>T. trace e' = trace e @ T
         \<and> calls_with (\<lambda>sc a. sc = ''*'' \<longrightarrow> a = VRef (state e)) T
         \<and> (timers e' = timers e
              \<or> (\<exists>pending. timers e' = timers e @ [(VRef (state e), pending)]))))
   \<and> (timers x = (st, pending) # rest \<and> tick fuel x = Some x' \<longrightarrow>
      (\<exists>T new. trace x' = trace x @ T
         \<and> calls_with (\<lambda>sc a. sc = ''*'' \<longrightarrow> a = st) T
         \<and> timers x' = rest @ new \<and> list_all (\<lambda>t. fst t = st) new))
   \<and> (state y < nxt (hp y) \<and> set_js notify_inner (JObj ps) v y = Some y' \<longrightarrow>
        state y' \<noteq> state y \<and> cells (hp y') (state y) = cells (hp y) (state y))"
proof (intro conjI impI)
  assume "notify fuel p e = Some e'"
  then show "\<exists>T. trace e' = trace e @ T
         \<and> calls_with (\<lambda>sc a. sc = ''*'' \<longrightarrow> a = VRef (state e)) T
         \<and> (timers e' = timers e
              \<or> (\<exists>pending. timers e' = timers e @ [(VRef (state e), pending)]))"
    unfolding notify_def by (rule notifySubscribers_calls [OF deferring_notify_inner])
next
  assume "timers x = (st, pending) # rest \<and> tick fuel x = Some x'"
  then show "\<exists>T new. trace x' = trace x @ T
         \<and> calls_with (\<lambda>sc a. sc = ''*'' \<longrightarrow> a = st) T
         \<and> timers x' = rest @ new \<and> list_all (\<lambda>t. fst t = st) new"
    using tick_calls by blast
next
  assume a: "state y < nxt (hp y) \<and> set_js notify_inner (JObj ps) v y = Some y'"
  then have "merge_state notify_inner (JObj ps) y = Some y'" by simp
  from merge_new_root [OF deferring_notify_inner _ this] a
  show "state y' \<noteq> state y" and "cells (hp y') (state y) = cells (hp y) (state y)"
    by simp_all
qed

text \<open>
  The subscriber on \<open>a\<close> merges \<open>{x: 1}\<close> and sets \<open>b\<close> to \<open>7\<close>. In the deferred pass the
  subscriber on \<open>b\<close> is given \<open>7\<close>, while the wildcard subscriber is given the object at
  address 0, the root before the merge, where \<open>b\<close> is undefined; the root is then at
  address 2.
\<close>

lemma stale_first_pass:
  "map_option timers (notify 5 ''a'' stale_engine) = Some [(VRef 0, [''*'', ''b''])]"
  by code_simp

lemma stale_deferred_pass:
  "map_option (\<lambda>e. (trace e, state e, get e (JStr ''b''),
                    getProp (realm e) (cells (hp e)) (VRef 0) ''b''))
     (Option.bind (notify 5 ''a'' stale_engine) (tick 5))
   = Some ([Call ''a'' 1 VUndefined ''a'', Ret ''a'' 1,
            Call ''*'' 5 (VRef 0) ''a'', Obs VUndefined, Ret ''*'' 5,
            Call ''*'' 5 (VRef 0) ''*'', Obs VUndefined, Ret ''*'' 5,
            Call ''b'' 3 (VNum 7) ''b'', Obs (VNum 7), Ret ''b'' 3,
            Call ''*'' 5 (VRef 0) ''b'', Obs VUndefined, Ret ''*'' 5],
           2, VNum 7, VUndefined)"
  by code_simp

lemma stale_merge:
  "state (stale_engine\<lparr>isUpdating := True\<rparr>) < nxt (hp (stale_engine\<lparr>isUpdating := True\<rparr>))
   \<and> map_option state
       (set_js notify_inner (JObj [(''x'', JNum 1)]) JUndefined (stale_engine\<lparr>isUpdating := True\<rparr>))
     = Some 2"
  by code_simp

theorem C10_stale_root_witness:
  "\<exists>e1 e2 y'.
      notify 5 ''a'' stale_engine = Some e1 \<and> timers e1 = [(VRef 0, [''*'', ''b''])]
    \<and> tick 5 e1 = Some e2
    \<and> trace e2 = [Call ''a'' 1 VUndefined ''a'', Ret ''a'' 1,
            Call ''*'' 5 (VRef 0) ''a'', Obs VUndefined, Ret ''*'' 5,
            Call ''*'' 5 (VRef 0) ''*'', Obs VUndefined, Ret ''*'' 5,
            Call ''b'' 3 (VNum 7) ''b'', Obs (VNum 7), Ret ''b'' 3,
            Call ''*'' 5 (VRef 0) ''b'', Obs VUndefined, Ret ''*'' 5]
    \<and> state e2 = 2 \<and> get e2 (JStr ''b'') = VNum 7
    \<and> getProp (realm e2) (cells (hp e2)) (VRef 0) ''b'' = VUndefined
    \<and> (\<exists>T new. trace e2 = trace e1 @ T
          \<and> calls_with (\<lambda>sc a. sc = ''*'' \<longrightarrow> a = VRef 0) T
          \<and> timers e2 = [] @ new \<and> list_all (\<lambda>t. fst t = VRef 0) new)
    \<and> (\<exists>T. trace e1 = trace stale_engine @ T
          \<and> calls_with (\<lambda>sc a. sc = ''*'' \<longrightarrow> a = VRef (state stale_engine)) T)
    \<and> set_js notify_inner (JObj [(''x'', JNum 1)]) JUndefined (stale_engine\<lparr>isUpdating := True\<rparr>)
        = Some y'
    \<and> state y' \<noteq> state (stale_engine\<lparr>isUpdating := True\<rparr>)"
proof -
  let ?y = "stale_engine\<lparr>isUpdating := True\<rparr>"
  from stale_first_pass obtain e1 where
    e1: "notify 5 ''a'' stale_engine = Some e1" "timers e1 = [(VRef 0, [''*'', ''b''])]"
    by auto
  from stale_deferred_pass e1(1) obtain e2 where
    e2: "tick 5 e1 = Some e2"
      "trace e2 = [Call ''a'' 1 VUndefined ''a'', Ret ''a'' 1,
            Call ''*'' 5 (VRef 0) ''a'', Obs VUndefined, Ret ''*'' 5,
            Call ''*'' 5 (VRef 0) ''*'', Obs VUndefined, Ret ''*'' 5,
            Call ''b'' 3 (VNum 7) ''b'', Obs (VNum 7), Ret ''b'' 3,
            Call ''*'' 5 (VRef 0) ''b'', Obs VUndefined, Ret ''*'' 5]"
      "state e2 = 2" "get e2 (JStr ''b'') = VNum 7"
      "getProp (realm e2) (cells (hp e2)) (VRef 0) ''b'' = VUndefined"
    by auto
  from stale_merge obtain y' where
    y: "state ?y < nxt (hp ?y)"
       "set_js notify_inner (JObj [(''x'', JNum 1)]) JUndefined ?y = Some y'"
    by auto
  note C = C10_deferred_wildcard_gets_captured_root
    [where fuel = 5 and p = "''a''" and e = stale_engine and e' = e1 and x = e1
       and st = "VRef 0" and pending = "[''*'', ''b'']" and rest = "[]" and x' = e2
       and y = ?y and ps = "[(''x'', JNum 1)]" and v = JUndefined and y' = y']
  have t: "\<exists>T new. trace e2 = trace e1 @ T
          \<and> calls_with (\<lambda>sc a. sc = ''*'' \<longrightarrow> a = VRef 0) T
          \<and> timers e2 = [] @ new \<and> list_all (\<lambda>t. fst t = VRef 0) new"
    using conjunct1 [OF conjunct2 [OF C], THEN mp, OF conjI [OF e1(2) e2(1)]] .
  have m: "state y' \<noteq> state ?y"
    using conjunct2 [OF conjunct2 [OF C], THEN mp, OF conjI [OF y]] by simp
  have n: "\<exists>T. trace e1 = trace stale_engine @ T
          \<and> calls_with (\<lambda>sc a. sc = ''*'' \<longrightarrow> a = VRef (state stale_engine)) T"
    using conjunct1 [OF C, THEN mp, OF e1(1)] by blast
  from e1 e2 t n y(2) m show ?thesis by blast
qed


section \<open>A subscriber that writes back to its own path\<close>

lemma storm_engine_eq:
  "storm_engine =
     \<lparr>realm = sample_realm, maxDepth = 50,
      hp = \<lparr>cells = [0 \<mapsto> ObjCell []], nxt = 1\<rparr>,
      state = 0, subscribers = [(''a'', 0)],
      sets = (\<lambda>s. [])(0 := [\<lparr>sid = 1, callback = UserCb storm_cb\<rparr>]),
      nextSym = 2, maxSubscribers = 1000, isUpdating = False, pendingUpdates = [],
      updateCount = 0, maxUpdatesPerCycle = 100, timers = [],
      computedCache = [], computedDependencies = [], trace = []\<rparr>"
  by (simp add: storm_engine_def subscribe_def new_ReactiveState_def totalSubscribers_def)

lemma path_a: "split_dots ''a'' = [''a'']" "validatePath 50 (JStr ''a'')" "validateKey ''a''"
  by (simp_all add: validateKey_def trim_empty_def is_space_def)

lemma storm_first:
  "set_js (notify 2) (JStr ''a'') (JNum 0) storm_engine = Some (storm_state 1 0)"
  by (simp add: storm_engine_eq storm_state_def storm_cb_def path_a
      setByPath_def getProp_def setProp_def sample_realm_def inherited_def
      get_def get_step_def
      notify_def notify_inner_def notifySubscribers_def notifyPathSubscribers_def
      invoke_def run_callback_def set_add_def forEach_numeral
      validateKey_def trim_empty_def is_space_def)


lemma storm_step:
  "c < 100 \<Longrightarrow> tick 2 (storm_state c n) = Some (storm_state 0 (Suc n))"
  by (simp add: storm_state_def storm_cb_def path_a tick_def
      setByPath_def getProp_def setProp_def sample_realm_def inherited_def
      get_def get_step_def
      notify_def notify_inner_def notifySubscribers_def notifyPathSubscribers_def
      invoke_def run_callback_def set_add_def forEach_numeral
      validateKey_def trim_empty_def is_space_def)


lemma storm_ticks_from:
  "c < 100 \<Longrightarrow> ticks 2 n (storm_state c k) = Some (storm_state (if n = 0 then c else 0) (k + n))"
proof (induction n arbitrary: c k)
  case 0
  show ?case by simp
next
  case (Suc n)
  have "ticks 2 (Suc n) (storm_state c k) = ticks 2 n (storm_state 0 (Suc k))"
    using Suc.prems by (simp add: storm_step)
  also have "\<dots> = Some (storm_state (if n = 0 then 0 else 0) (Suc k + n))"
    by (rule Suc.IH) simp
  finally show ?case by simp
qed

lemma blocks_append: "blocks scope (xs @ ys) = blocks scope xs @ blocks scope ys"
  by (simp add: blocks_def)

lemma storm_marks: "marks (storm_trace n) = blocks ''a'' (replicate (Suc n) 1)"
proof (induction n)
  case 0
  show ?case by (simp add: blocks_def)
next
  case (Suc n)
  have "marks (storm_trace (Suc n)) = blocks ''a'' (replicate (Suc n) 1) @ blocks ''a'' [1]"
    using Suc by (simp add: marks_append blocks_def)
  also have "\<dots> = blocks ''a'' (replicate (Suc n) 1 @ [1])"
    by (simp only: blocks_append)
  also have "replicate (Suc n) (1::nat) @ [1] = replicate (Suc (Suc n)) 1"
    by (simp add: replicate_append_same)
  finally show ?case .
qed

text \<open>
  C2 (the code departs from it). A subscriber on \<open>a\<close> writes \<open>v + 1\<close> back to \<open>a\<close>. The
  user's \<open>set("a", 0)\<close> runs it once and leaves a timer task; every timer task runs it
  once more and leaves the next task, with the update counter back at \<open>0\<close>. After \<open>n\<close>
  tasks the callback has run \<open>n + 1\<close> times, for every \<open>n\<close>, also beyond
  \<open>maxUpdatesPerCycle = 100\<close>, and a task is still waiting: the burst is never aborted.
\<close>

theorem C2_write_back_storm_unbounded:
  "set_js (notify 2) (JStr ''a'') (JNum 0) storm_engine = Some (storm_state 1 0)
   \<and> ticks 2 n (storm_state 1 0) = Some (storm_state (if n = 0 then 1 else 0) n)
   \<and> marks (trace (storm_state c n)) = blocks ''a'' (replicate (Suc n) 1)
   \<and> timers (storm_state c n) = [(VRef 0, [''a''])]
   \<and> maxUpdatesPerCycle (storm_state c n) = 100"
  using storm_first storm_ticks_from [of 1 n 0]
  by (simp add: storm_marks storm_state_def)

section \<open>The subscriptions of a computed value\<close>

lemma foldl_plus_sum: "foldl (\<lambda>t x. t + f x) (a::nat) xs = a + sum_list (map f xs)"
  by (induction xs arbitrary: a) simp_all

lemma totalSubscribers_sum:
  "totalSubscribers e = sum_list (map (\<lambda>ps. length (sets e (snd ps))) (subscribers e))"
  by (simp add: totalSubscribers_def foldl_plus_sum)

lemma sum_other_sets:
  "\<forall>ps \<in> set subs. snd ps \<noteq> s \<Longrightarrow>
   sum_list (map (\<lambda>ps. length ((f(s := xs)) (snd ps))) subs)
   = sum_list (map (\<lambda>ps. length (f (snd ps))) subs)"
  by (induction subs) simp_all

lemma sum_one_set:
  "distinct (map snd subs) \<Longrightarrow> (p, s) \<in> set subs \<Longrightarrow>
   sum_list (map (\<lambda>ps. length ((f(s := f s @ [x])) (snd ps))) subs)
   = Suc (sum_list (map (\<lambda>ps. length (f (snd ps))) subs))"
proof (induction subs)
  case Nil
  then show ?case by simp
next
  case (Cons q subs)
  show ?case
  proof (cases "q = (p, s)")
    case True
    with Cons.prems have "\<forall>ps \<in> set subs. snd ps \<noteq> s" by force
    from sum_other_sets [OF this] True show ?thesis by simp
  next
    case False
    with Cons.prems have in_subs: "(p, s) \<in> set subs" and d: "distinct (map snd subs)"
      by auto
    from in_subs have "s \<in> snd ` set subs" by force
    with Cons.prems(1) have "snd q \<noteq> s" by auto
    with Cons.IH [OF d in_subs] show ?thesis by simp
  qed
qed

lemma subscribe_total:
  assumes ok: "registry_ok e" and room: "totalSubscribers e < maxSubscribers e"
  shows "totalSubscribers (snd (subscribe p cb e)) = Suc (totalSubscribers e)
     \<and> registry_ok (snd (subscribe p cb e))
     \<and> (\<exists>s. map_of (subscribers (snd (subscribe p cb e))) p = Some s
            \<and> sets (snd (subscribe p cb e)) s \<noteq> []
            \<and> callback (last (sets (snd (subscribe p cb e)) s)) = cb)"
proof (cases "map_of (subscribers e) p")
  case None
  from ok have "\<forall>ps \<in> set (subscribers e). snd ps \<noteq> nextSym e"
    by (auto simp: registry_ok_def list_all_iff)
  from sum_other_sets [OF this] None room have
    "totalSubscribers (snd (subscribe p cb e)) = Suc (totalSubscribers e)"
    by (simp add: subscribe_def totalSubscribers_sum)
  moreover from None have "p \<notin> fst ` set (subscribers e)"
    by (simp add: map_of_eq_None_iff)
  with ok \<open>\<forall>ps \<in> set (subscribers e). snd ps \<noteq> nextSym e\<close>
  have "registry_ok (snd (subscribe p cb e))"
    using None room
    by (simp add: subscribe_def registry_ok_def list_all_iff) force
  moreover have "map_of (subscribers (snd (subscribe p cb e))) p = Some (nextSym e)"
    using None room by (simp add: subscribe_def map_add_def)
  ultimately show ?thesis
    using None room by (simp add: subscribe_def)
next
  case (Some s)
  then have "(p, s) \<in> set (subscribers e)" by (rule map_of_SomeD)
  moreover from ok have "distinct (map snd (subscribers e))" by (simp add: registry_ok_def)
  ultimately have
    "totalSubscribers (snd (subscribe p cb e)) = Suc (totalSubscribers e)"
    using Some room by (simp add: subscribe_def totalSubscribers_sum sum_one_set del: fun_upd_apply)
  moreover have "registry_ok (snd (subscribe p cb e))"
    using ok Some room
    by (auto simp: subscribe_def registry_ok_def list_all_iff)
  ultimately show ?thesis
    using Some room by (simp add: subscribe_def)
qed

lemma subscribe_quiet:
  "trace (snd (subscribe p cb e)) = trace e \<and>
   pendingUpdates (snd (subscribe p cb e)) = pendingUpdates e \<and>
   timers (snd (subscribe p cb e)) = timers e \<and>
   computedCache (snd (subscribe p cb e)) = computedCache e \<and>
   maxSubscribers (snd (subscribe p cb e)) = maxSubscribers e"
  by (auto simp: subscribe_def split: option.splits)

text \<open>
  C9. When the dependency callback of a computed entry finds a value different from the
  cached one, it stores the value and subscribes one more empty callback on
  \<open>computed.<name>\<close>: below the subscriber ceiling the registry grows by exactly one
  entry, nothing is notified and no path is recorded as pending. When the value is the
  cached one, the callback changes nothing.
\<close>

theorem C9_computed_change_adds_subscriber:
  "(run_prog computeFn N e = Some (e1, Inr newValue) \<and> newValue \<noteq> getComputed e1 name
      \<and> registry_ok e1 \<and> totalSubscribers e1 < maxSubscribers e1 \<longrightarrow>
      (\<exists>e2. run_callback (ComputedCb name computeFn) a1 a2 N e = Some (e2, Inr VUndefined)
         \<and> totalSubscribers e2 = Suc (totalSubscribers e1)
         \<and> registry_ok e2 \<and> maxSubscribers e2 = maxSubscribers e1
         \<and> getComputed e2 name = newValue
         \<and> (\<exists>s. map_of (subscribers e2) (''computed.'' @ name) = Some s
                \<and> sets e2 s \<noteq> [] \<and> callback (last (sets e2 s)) = NoopCb)
         \<and> trace e2 = trace e1 \<and> pendingUpdates e2 = pendingUpdates e1
         \<and> timers e2 = timers e1))
   \<and> (run_prog computeFn N e = Some (e1, Inr newValue) \<and> newValue = getComputed e1 name
      \<longrightarrow> run_callback (ComputedCb name computeFn) a1 a2 N e = Some (e1, Inr VUndefined))"
proof (intro conjI impI)
  assume h: "run_prog computeFn N e = Some (e1, Inr newValue) \<and> newValue \<noteq> getComputed e1 name
      \<and> registry_ok e1 \<and> totalSubscribers e1 < maxSubscribers e1"
  let ?c = "e1\<lparr>computedCache := AList.update name newValue (computedCache e1)\<rparr>"
  let ?e2 = "snd (subscribe (''computed.'' @ name) NoopCb ?c)"
  have r: "run_callback (ComputedCb name computeFn) a1 a2 N e = Some (?e2, Inr VUndefined)"
    using h by (simp add: run_callback_def getComputed_def)
  have ok: "registry_ok ?c" "totalSubscribers ?c < maxSubscribers ?c"
    "totalSubscribers ?c = totalSubscribers e1"
    using h by (simp_all add: registry_ok_def totalSubscribers_def)
  have "getComputed ?e2 name = newValue"
    by (simp add: getComputed_def subscribe_quiet update_conv')
  with subscribe_total [OF ok(1,2), of "''computed.'' @ name" NoopCb] ok(3) r
  show "\<exists>e2. run_callback (ComputedCb name computeFn) a1 a2 N e = Some (e2, Inr VUndefined)
         \<and> totalSubscribers e2 = Suc (totalSubscribers e1)
         \<and> registry_ok e2 \<and> maxSubscribers e2 = maxSubscribers e1
         \<and> getComputed e2 name = newValue
         \<and> (\<exists>s. map_of (subscribers e2) (''computed.'' @ name) = Some s
                \<and> sets e2 s \<noteq> [] \<and> callback (last (sets e2 s)) = NoopCb)
         \<and> trace e2 = trace e1 \<and> pendingUpdates e2 = pendingUpdates e1
         \<and> timers e2 = timers e1"
    by (intro exI [of _ ?e2]) (simp add: subscribe_quiet)
next
  assume "run_prog computeFn N e = Some (e1, Inr newValue) \<and> newValue = getComputed e1 name"
  then show "run_callback (ComputedCb name computeFn) a1 a2 N e = Some (e1, Inr VUndefined)"
    by (simp add: run_callback_def getComputed_def)
qed

text \<open>
  \<open>computed("copy", () => get("n"), ["n"])\<close> on \<open>{n: 0}\<close>: one subscriber. After
  \<open>set("n", 1)\<close> and \<open>set("n", 2)\<close> the registry holds three.
\<close>

lemma computed_changed_facts:
  "get computed_changed (JStr ''n'') = VNum 1 \<and> getComputed computed_changed ''copy'' = VNum 0
   \<and> registry_ok computed_changed \<and> totalSubscribers computed_changed = 1
   \<and> maxSubscribers computed_changed = 1000"
  by code_simp

lemma computed_scenario:
  "map_option (\<lambda>e. (totalSubscribers e, getComputed e ''copy'', map fst (subscribers e)))
     (Option.bind (Option.bind computed_engine (set_js (notify 5) (JStr ''n'') (JNum 1)))
        (set_js (notify 5) (JStr ''n'') (JNum 2)))
   = Some (3, VNum 2, [''n'', ''computed.copy''])"
  by code_simp

theorem C9_computed_witness:
  "(\<exists>e2. run_callback (ComputedCb ''copy'' (Get (JStr ''n'') Return)) (VNum 1) ''n''
            notify_inner computed_changed = Some (e2, Inr VUndefined)
         \<and> totalSubscribers computed_changed = 1 \<and> totalSubscribers e2 = 2
         \<and> getComputed e2 ''copy'' = VNum 1
         \<and> (\<exists>s. map_of (subscribers e2) ''computed.copy'' = Some s
                \<and> sets e2 s \<noteq> [] \<and> callback (last (sets e2 s)) = NoopCb))
   \<and> map_option (\<lambda>e. (totalSubscribers e, getComputed e ''copy'', map fst (subscribers e)))
     (Option.bind (Option.bind computed_engine (set_js (notify 5) (JStr ''n'') (JNum 1)))
        (set_js (notify 5) (JStr ''n'') (JNum 2)))
     = Some (3, VNum 2, [''n'', ''computed.copy''])"
proof -
  have h: "run_prog (Get (JStr ''n'') Return) notify_inner computed_changed
             = Some (computed_changed, Inr (VNum 1))
      \<and> VNum 1 \<noteq> getComputed computed_changed ''copy''
      \<and> registry_ok computed_changed
      \<and> totalSubscribers computed_changed < maxSubscribers computed_changed"
    using computed_changed_facts by simp
  note C = C9_computed_change_adds_subscriber
    [where computeFn = "Get (JStr ''n'') Return" and N = notify_inner and e = computed_changed
       and ?e1.0 = computed_changed and newValue = "VNum 1" and name = "''copy''"
       and ?a1.0 = "VNum 1" and ?a2.0 = "''n''"]
  from conjunct1 [OF C, THEN mp, OF h] computed_changed_facts computed_scenario
  show ?thesis by auto
qed


section \<open>set followed by get\<close>





















text \<open>
  The two other conditions of C5 are needed. On \<open>{a: [1, 2]}\<close>, \<open>set("a.length", "x")\<close>
  throws inside \<open>set\<close> (the length of an array cannot be \<open>"x"\<close>), the error is caught,
  and \<open>get("a.length")\<close> is still \<open>2\<close>. With the subscriber that writes \<open>v + 1\<close> back to
  \<open>a\<close>, \<open>get("a")\<close> after \<open>set("a", 0)\<close> is \<open>1\<close>.
\<close>

lemma array_length_not_stored:
  "map_option (\<lambda>e. get e (JStr ''a.length''))
     (set_js (notify 1) (JStr ''a.length'') (JStr ''x'') array_engine) = Some (VNum 2)"
  by code_simp

lemma subscriber_overwrites:
  "map_option (\<lambda>e. get e (JStr ''a'')) (set_js (notify 2) (JStr ''a'') (JNum 0) storm_engine)
     = Some (VNum 1)"
  by code_simp

section \<open>A set inside a callback\<close>







end
